theory Spec2Isabelle
  imports Complex_Main "HOL-Library.Word"
begin

section \<open>Python string primitives\<close>

text \<open>
  A Python \<open>str\<close> is modelled as a \<open>string\<close> whose characters are read as the code
  points 0..255, so \<open>length\<close> counts what \<open>len\<close> counts. On that range
  \<open>str.lower\<close> works character by character and \<open>str.isspace\<close> holds for the
  code points listed in \<open>is_space\<close>.
\<close>

definition is_space :: "char \<Rightarrow> bool" where
  "is_space c = (c \<in> set [CHR 0x09, CHR 0x0A, CHR 0x0B, CHR 0x0C, CHR 0x0D,
                           CHR 0x1C, CHR 0x1D, CHR 0x1E, CHR 0x1F, CHR 0x20,
                           CHR 0x85, CHR 0xA0])"

definition lower_char :: "char \<Rightarrow> char" where
  "lower_char c =
     (let n = (of_char c :: nat)
      in if (65 \<le> n \<and> n \<le> 90) \<or> (192 \<le> n \<and> n \<le> 222 \<and> n \<noteq> 215)
         then char_of (n + 32) else c)"

text \<open>\<open>s.lower()\<close>\<close>
definition py_lower :: "string \<Rightarrow> string" where
  "py_lower s = map lower_char s"

text \<open>\<open>s.strip()\<close>: leading and trailing whitespace removed.\<close>
definition py_strip :: "string \<Rightarrow> string" where
  "py_strip s = rev (dropWhile is_space (rev (dropWhile is_space s)))"

text \<open>\<open>s.rstrip(chars)\<close>: trailing characters that occur in \<open>chars\<close> removed.\<close>
definition py_rstrip :: "string \<Rightarrow> string \<Rightarrow> string" where
  "py_rstrip chars s = rev (dropWhile (\<lambda>c. c \<in> set chars) (rev s))"

text \<open>\<open>s.endswith(suf)\<close>\<close>
definition py_endswith :: "string \<Rightarrow> string \<Rightarrow> bool" where
  "py_endswith s suf = (length suf \<le> length s \<and> drop (length s - length suf) s = suf)"

text \<open>\<open>s.split()\<close>: the maximal runs of non-whitespace characters, in order.\<close>
function py_split :: "string \<Rightarrow> string list" where
  "py_split s =
     (case dropWhile is_space s of
        [] \<Rightarrow> []
      | c # cs \<Rightarrow> (c # takeWhile (\<lambda>x. \<not> is_space x) cs)
                 # py_split (dropWhile (\<lambda>x. \<not> is_space x) cs))"
  by pat_completeness auto
termination
proof (relation "measure length")
  fix s :: string and c cs
  assume a: "dropWhile is_space s = c # cs"
  have "length (dropWhile (\<lambda>x. \<not> is_space x) cs) \<le> length cs"
    by (rule length_dropWhile_le)
  moreover have "length (c # cs) \<le> length s"
    using length_dropWhile_le [of is_space s] a by simp
  ultimately show "(dropWhile (\<lambda>x. \<not> is_space x) cs, s) \<in> measure length"
    by simp
qed simp

declare py_split.simps [simp del]

text \<open>\<open>' '.join(ws)\<close>\<close>
fun py_join :: "string list \<Rightarrow> string" where
  "py_join [] = []"
| "py_join [w] = w"
| "py_join (w # v # ws) = w @ '' '' @ py_join (v # ws)"

section \<open>Trailing ellipsis\<close>

text \<open>
  The loop \<^verbatim>\<open>while t.endswith('...') or t.endswith('....'): t = t[:-3].strip()\<close>,
  which \<open>main.py\<close> runs at lines 555-556, 659-660 and 694-695.
\<close>
function ellipsis_loop :: "string \<Rightarrow> string" where
  "ellipsis_loop t =
     (if py_endswith t ''...'' \<or> py_endswith t ''....''
      then ellipsis_loop (py_strip (take (length t - 3) t))
      else t)"
  by pat_completeness auto
termination
proof (relation "measure length")
  fix t :: string
  assume a: "py_endswith t ''...'' \<or> py_endswith t ''....''"
  then have "3 \<le> length t"
    by (auto simp: py_endswith_def)
  moreover have "length (py_strip (take (length t - 3) t)) \<le> length (take (length t - 3) t)"
    unfolding py_strip_def
    using length_dropWhile_le [of is_space "rev (dropWhile is_space (take (length t - 3) t))"]
          length_dropWhile_le [of is_space "take (length t - 3) t"]
    by simp
  ultimately show "(py_strip (take (length t - 3) t), t) \<in> measure length"
    by simp
qed simp

declare ellipsis_loop.simps [simp del]

text \<open>\<open>_is_sentence_complete\<close> (main.py 548-562)\<close>
definition is_sentence_complete :: "string \<Rightarrow> bool" where
  "is_sentence_complete text0 =
     (let text = py_strip text0
      in if text = [] then False
         else let text = ellipsis_loop text
              in if text = [] then False
                 else last text \<in> set ''.!?;'')"

section \<open>Word-set similarity\<close>

text \<open>\<open>_calculate_similarity\<close> (main.py 513-534). Python floats are read as reals.\<close>
definition calculate_similarity :: "string \<Rightarrow> string \<Rightarrow> real" where
  "calculate_similarity s1 s2 =
     (let s1_clean = py_strip (py_lower s1);
          s2_clean = py_strip (py_lower s2)
      in if s1_clean = [] \<or> s2_clean = [] then 0
         else if s1_clean = s2_clean then 1
         else let words1 = set (py_split s1_clean);
                  words2 = set (py_split s2_clean)
              in if words1 = {} \<or> words2 = {} then 0
                 else let intersection = card (words1 \<inter> words2);
                          union = card (words1 \<union> words2)
                      in if union > 0 then real intersection / real union else 0)"

section \<open>Word-loop cleaning\<close>

text \<open>The comparison key of main.py 578: \<^verbatim>\<open>w.lower().rstrip(',.!?;:')\<close>.\<close>
definition loop_key :: "string \<Rightarrow> string" where
  "loop_key w = py_rstrip '',.!?;:'' (py_lower w)"

text \<open>
  The outer \<open>while i < len(words)\<close> loop of \<open>_clean_word_loops\<close>, on the remaining
  words \<open>words[i:]\<close>. The inner loop counts the words after \<open>word\<close> that carry its key;
  the result is what the iteration appends to \<open>cleaned\<close>, followed by the rest of the run
  of the loop.
\<close>
function clean_loop :: "string list \<Rightarrow> string list" where
  "clean_loop [] = []"
| "clean_loop (word # rest) =
     (let count = Suc (length (takeWhile (\<lambda>w. loop_key w = loop_key word) rest))
      in if count \<ge> 3
         then word # (if rest \<noteq> [] then [hd rest] else []) @ clean_loop (drop (count - 1) rest)
         else if count = 2
         then word # clean_loop (drop (count - 1) rest)
         else word # clean_loop rest)"
  by pat_completeness auto
termination
  by (relation "measure length") auto

declare clean_loop.simps(2) [simp del]

text \<open>\<open>_clean_word_loops\<close> (main.py 564-603), without its log messages.\<close>
definition clean_word_loops :: "string \<Rightarrow> string" where
  "clean_word_loops text =
     (let words = py_split text
      in if length words < 3 then text else py_join (clean_loop words))"

section \<open>Fragment merging\<close>

text \<open>The slice \<open>xs[-i:]\<close>.\<close>
definition last_n :: "nat \<Rightarrow> 'a list \<Rightarrow> 'a list" where
  "last_n i xs = (if i = 0 then xs else drop (length xs - i) xs)"

text \<open>
  The two \<open>for\<close> loops of \<open>_merge_fragments\<close> (main.py 620-632) on the two word lists:
  the first keeps the last matching length, the second stops at the first one.
\<close>
definition overlap_length :: "string list \<Rightarrow> string list \<Rightarrow> nat" where
  "overlap_length buffer_words fragment_words =
     (let max_overlap = min (length buffer_words) (length fragment_words);
          overlap_length =
            foldl (\<lambda>ov i. if last_n i buffer_words = take i fragment_words then i else ov)
                  0 [1..<Suc max_overlap]
      in case find (\<lambda>i. last_n i buffer_words = take i fragment_words) [1..<max_overlap] of
           None \<Rightarrow> overlap_length
         | Some i \<Rightarrow> max overlap_length i)"

text \<open>\<open>_merge_fragments\<close> (main.py 605-648)\<close>
definition merge_fragments :: "string \<Rightarrow> string \<Rightarrow> string" where
  "merge_fragments buffer new_fragment0 =
     (if buffer = [] then clean_word_loops new_fragment0
      else
        let new_fragment = clean_word_loops new_fragment0
        in if calculate_similarity buffer new_fragment > 0.8
           then (if length buffer > length new_fragment then buffer else new_fragment)
           else
             let buffer_words = py_split buffer;
                 fragment_words = py_split new_fragment;
                 overlap_length = overlap_length buffer_words fragment_words;
                 merged =
                   (if overlap_length > 0
                    then buffer @ '' '' @ py_join (drop overlap_length fragment_words)
                    else if buffer_words \<noteq> [] \<and> fragment_words \<noteq> []
                            \<and> last buffer_words = hd fragment_words
                    then buffer @ '' '' @ py_join (tl fragment_words)
                    else buffer @ '' '' @ new_fragment)
             in py_strip (clean_word_loops merged))"

section \<open>The sentence accumulator\<close>

text \<open>
  The fields of \<open>TranslationAppPro\<close> that the accumulator reads and writes
  (main.py 180-201). The three thresholds are set once in \<open>__init__\<close>.
\<close>
record app_state =
  is_translating :: bool
  recent_transcriptions :: "string list"
  last_transcription_time :: "real option"
  sentence_buffer :: string
  buffer_start_time :: "real option"
  last_fragment_time :: "real option"

definition max_recent_transcriptions :: nat where
  "max_recent_transcriptions = 10"

definition sentence_timeout :: real where
  "sentence_timeout = 2.5"

definition min_sentence_length :: nat where
  "min_sentence_length = 50"

definition init_state :: app_state where
  "init_state =
     \<lparr>is_translating = False, recent_transcriptions = [], last_transcription_time = None,
      sentence_buffer = [], buffer_start_time = None, last_fragment_time = None\<rparr>"

text \<open>
  \<open>on_transcription\<close> (main.py 650-725). \<open>current_time\<close> is the value of
  \<open>time.time()\<close>; the result lists the arguments of the calls of
  \<open>process_translation\<close>, in order, and the state after the call.
\<close>
definition on_transcription :: "real \<Rightarrow> string \<Rightarrow> app_state \<Rightarrow> string list \<times> app_state" where
  "on_transcription current_time text st =
     (if py_strip text = [] then ([], st)
      else
        let text_clean = ellipsis_loop (py_strip text)
        in if text_clean = [] then ([], st)
           else if py_lower text_clean = py_strip (py_lower (sentence_buffer st)) then ([], st)
           else
             let st = (if sentence_buffer st = []
                       then st\<lparr>buffer_start_time := Some current_time\<rparr> else st);
                 st = st\<lparr>sentence_buffer := merge_fragments (sentence_buffer st) text_clean,
                         last_fragment_time := Some current_time\<rparr>;
                 is_complete = is_sentence_complete (sentence_buffer st);
                 timeout_reached =
                   (case buffer_start_time st of
                      None \<Rightarrow> False
                    | Some t0 \<Rightarrow> t0 \<noteq> 0 \<and> current_time - t0 > sentence_timeout);
                 is_long_enough = (length (sentence_buffer st) \<ge> min_sentence_length)
             in if is_complete \<or> (timeout_reached \<and> is_long_enough)
                then
                  let complete_sentence = ellipsis_loop (py_strip (sentence_buffer st))
                  in if length complete_sentence < 20
                     then ([], st\<lparr>sentence_buffer := [], buffer_start_time := None,
                                  last_fragment_time := None\<rparr>)
                     else
                       let recent = recent_transcriptions st @ [py_lower complete_sentence];
                           recent = (if length recent > max_recent_transcriptions
                                     then tl recent else recent)
                       in ([complete_sentence],
                           st\<lparr>recent_transcriptions := recent,
                              last_transcription_time := Some current_time,
                              sentence_buffer := [], buffer_start_time := None,
                              last_fragment_time := None\<rparr>)
                else ([], st))"

text \<open>
  \<open>stop_translation_process\<close> (main.py 450-494), restricted to the accumulator: the
  guard on \<open>is_translating\<close>, the pending-buffer block of lines 468-473 and the reset of
  lines 475-478. The audio, subtitle and STT calls around them belong to other components.
\<close>
definition stop_translation_process :: "app_state \<Rightarrow> string list \<times> app_state" where
  "stop_translation_process st =
     (if \<not> is_translating st then ([], st)
      else
        let st = st\<lparr>is_translating := False\<rparr>;
            sent = (if py_strip (sentence_buffer st) \<noteq> []
                       \<and> length (sentence_buffer st) \<ge> min_sentence_length
                    then [sentence_buffer st] else [])
        in (sent, st\<lparr>sentence_buffer := [], buffer_start_time := None,
                     last_fragment_time := None\<rparr>))"

text \<open>
  Names for the intermediate values of \<open>on_transcription\<close>: the cleaned fragment
  \<open>text_clean\<close> of lines 658-660, the three early returns of lines 652, 662 and 666,
  the buffer after the merge of line 675, and the tests of lines 684-687, where
  \<open>buffer_start_time\<close> has been set at line 672 when the buffer was empty.
\<close>
definition text_clean :: "string \<Rightarrow> string" where
  "text_clean text = ellipsis_loop (py_strip text)"

definition fragment_skipped :: "app_state \<Rightarrow> string \<Rightarrow> bool" where
  "fragment_skipped st text =
     (py_strip text = [] \<or> text_clean text = []
      \<or> py_lower (text_clean text) = py_strip (py_lower (sentence_buffer st)))"

definition merged_buffer :: "app_state \<Rightarrow> string \<Rightarrow> string" where
  "merged_buffer st text = merge_fragments (sentence_buffer st) (text_clean text)"

definition timeout_reached :: "real \<Rightarrow> app_state \<Rightarrow> bool" where
  "timeout_reached current_time st =
     (case (if sentence_buffer st = [] then Some current_time else buffer_start_time st) of
        None \<Rightarrow> False
      | Some t0 \<Rightarrow> t0 \<noteq> 0 \<and> current_time - t0 > sentence_timeout)"

text \<open>Lines 706-708: append to the history, then drop the oldest entry beyond ten.\<close>
definition push_recent :: "string \<Rightarrow> string list \<Rightarrow> string list" where
  "push_recent entry recent =
     (if length (recent @ [entry]) > max_recent_transcriptions
      then tl (recent @ [entry]) else recent @ [entry])"

text \<open>The buffer invariant of the data model.\<close>
definition buffer_invariant :: "app_state \<Rightarrow> bool" where
  "buffer_invariant st =
     ((sentence_buffer st = [] \<longleftrightarrow> buffer_start_time st = None)
      \<and> (buffer_start_time st = None \<longleftrightarrow> last_fragment_time st = None))"

text \<open>
  A session that has received one fragment of 62 characters, whose last two words repeat
  and whose first repeat carries an ellipsis.
\<close>
definition pending_state :: app_state where
  "pending_state =
     snd (on_transcription 1 ''the committee has not yet announced the final result... result''
            (init_state\<lparr>is_translating := True\<rparr>))"

section \<open>Words and runs\<close>

text \<open>A text that holds at least one word.\<close>
definition has_word :: "string \<Rightarrow> bool" where
  "has_word s = (\<exists>c \<in> set s. \<not> is_space c)"

text \<open>What \<open>split\<close> returns: words that are not empty and hold no whitespace.\<close>
definition proper_word :: "string \<Rightarrow> bool" where
  "proper_word w = (w \<noteq> [] \<and> (\<forall>c \<in> set w. \<not> is_space c))"

text \<open>No two, and no three, neighbouring words with the same key.\<close>
fun no_pair :: "string list \<Rightarrow> bool" where
  "no_pair (a # b # ws) = (loop_key a \<noteq> loop_key b \<and> no_pair (b # ws))"
| "no_pair ws = True"

fun no_triple :: "string list \<Rightarrow> bool" where
  "no_triple (a # b # c # ws) =
     (\<not> (loop_key a = loop_key b \<and> loop_key b = loop_key c) \<and> no_triple (b # c # ws))"
| "no_triple ws = True"

section \<open>Audio mixing\<close>

text \<open>
  \<open>audio_mixer.py\<close>. A sample is a 16-bit word read as a signed integer. The arrays of
  \<open>float32\<close> are lists of reals; \<open>rnd\<close> stands for the rounding of a real to a
  \<open>float32\<close> and is applied after every \<open>float32\<close> operation (a Python scalar that
  meets a \<open>float32\<close> array is first converted to \<open>float32\<close>). The conversion of an
  \<open>int16\<close> to \<open>float32\<close> is exact.
\<close>

datatype py_error = ValueError

record mixer_config =
  original_volume :: real
  translation_volume :: real
  sample_rate :: int

type_synonym int16 = "16 word"

text \<open>What is assumed of \<open>rnd\<close>: on the range the mixer works in, a relative error of at
  most \<open>2 ^ -23\<close> and, for results near zero, an absolute error of at most \<open>2 ^ -40\<close>.\<close>
definition float32_rounding :: "(real \<Rightarrow> real) \<Rightarrow> bool" where
  "float32_rounding rnd =
     (\<forall>x. \<bar>x\<bar> \<le> 262144 \<longrightarrow> \<bar>rnd x - x\<bar> \<le> \<bar>x\<bar> / 2 ^ 23 + 1 / 2 ^ 40)"

definition astype_float32 :: "int16 \<Rightarrow> real" where
  "astype_float32 w = real_of_int (sint w)"

text \<open>\<open>astype(np.int16)\<close> truncates towards zero; a value outside the range wraps.\<close>
definition trunc_to_zero :: "real \<Rightarrow> int" where
  "trunc_to_zero x = (if x \<ge> 0 then \<lfloor>x\<rfloor> else \<lceil>x\<rceil>)"

definition astype_int16 :: "real \<Rightarrow> int16" where
  "astype_int16 x = word_of_int (trunc_to_zero x)"

text \<open>\<open>np.pad(xs, (0, n), mode='constant')\<close>\<close>
definition np_pad :: "real list \<Rightarrow> nat \<Rightarrow> real list" where
  "np_pad xs n = xs @ replicate n 0"

text \<open>
  The normalisation and conversion that end both mixing functions (lines 108-114 and
  166-171). \<open>np.abs(mixed).max()\<close> raises \<open>ValueError\<close> on an array of size zero.
\<close>
definition normalize_int16 :: "(real \<Rightarrow> real) \<Rightarrow> real list \<Rightarrow> py_error + int16 list" where
  "normalize_int16 rnd mixed =
     (if mixed = [] then Inl ValueError
      else
        let max_val = Max (set (map abs mixed));
            mixed = (if max_val > 32767
                     then map (\<lambda>x. rnd (x * rnd (32767 / max_val))) mixed
                     else mixed)
        in Inr (map astype_int16 mixed))"

text \<open>\<open>mix_audio_arrays\<close> (lines 68-124)\<close>
definition mix_audio_arrays ::
  "(real \<Rightarrow> real) \<Rightarrow> mixer_config \<Rightarrow> int16 list \<Rightarrow> int16 list \<Rightarrow> py_error + int16 list" where
  "mix_audio_arrays rnd cfg original translation =
     (let original_float = map astype_float32 original;
          translation_float = map astype_float32 translation;
          original_attenuated = map (\<lambda>x. rnd (x * rnd (original_volume cfg))) original_float;
          translation_amplified =
            map (\<lambda>x. rnd (x * rnd (translation_volume cfg))) translation_float;
          max_len = max (length original_attenuated) (length translation_amplified);
          original_attenuated =
            (if length original_attenuated < max_len
             then np_pad original_attenuated (max_len - length original_attenuated)
             else original_attenuated);
          translation_amplified =
            (if length translation_amplified < max_len
             then np_pad translation_amplified (max_len - length translation_amplified)
             else translation_amplified);
          mixed = map2 (\<lambda>a b. rnd (a + b)) original_attenuated translation_amplified
      in normalize_int16 rnd mixed)"

text \<open>A bound of a slice \<open>a[i:j]\<close> on an array of length \<open>n\<close>.\<close>
definition py_slice_index :: "int \<Rightarrow> nat \<Rightarrow> nat" where
  "py_slice_index i n = (if i < 0 then nat (max 0 (i + int n)) else min (nat i) n)"

text \<open>
  Line 143: \<open>int((delay_ms / 1000) * sample_rate)\<close>, computed on Python floats, whose
  rounding is \<open>rnd64\<close>.
\<close>
definition delay_samples_of :: "(real \<Rightarrow> real) \<Rightarrow> mixer_config \<Rightarrow> int \<Rightarrow> int" where
  "delay_samples_of rnd64 cfg delay_ms =
     trunc_to_zero (rnd64 (rnd64 (real_of_int delay_ms / 1000) * real_of_int (sample_rate cfg)))"

text \<open>
  \<open>overlay_translation\<close> (lines 126-171). The in-place addition to the slice
  \<open>mixed[translation_start:translation_end]\<close> needs a slice as long as the translation,
  or a translation of one sample, which is then added to every element of the slice;
  otherwise numpy raises \<open>ValueError\<close>.
\<close>
definition overlay_translation ::
  "(real \<Rightarrow> real) \<Rightarrow> (real \<Rightarrow> real) \<Rightarrow> mixer_config \<Rightarrow> int16 list \<Rightarrow> int16 list \<Rightarrow> int
     \<Rightarrow> py_error + int16 list" where
  "overlay_translation rnd64 rnd cfg original translation delay_ms =
     (let delay_samples = delay_samples_of rnd64 cfg delay_ms;
          original_float =
            map (\<lambda>w. rnd (astype_float32 w * rnd (original_volume cfg))) original;
          translation_float =
            map (\<lambda>w. rnd (astype_float32 w * rnd (translation_volume cfg))) translation;
          total_length =
            nat (max (int (length original_float))
                     (delay_samples + int (length translation_float)));
          mixed = replicate total_length 0;
          mixed = map2 (\<lambda>m x. rnd (m + x)) (take (length original_float) mixed) original_float
                  @ drop (length original_float) mixed;
          translation_start = py_slice_index delay_samples total_length;
          translation_end =
            py_slice_index (delay_samples + int (length translation_float)) total_length;
          slice_length = translation_end - translation_start;
          slice = take slice_length (drop translation_start mixed)
      in if length translation_float = slice_length
         then normalize_int16 rnd
                (take translation_start mixed
                 @ map2 (\<lambda>m x. rnd (m + x)) slice translation_float
                 @ drop (translation_start + slice_length) mixed)
         else if length translation_float = 1
         then normalize_int16 rnd
                (take translation_start mixed
                 @ map (\<lambda>m. rnd (m + hd translation_float)) slice
                 @ drop (translation_start + slice_length) mixed)
         else Inl ValueError)"

text \<open>The default volumes of \<open>MixerConfig\<close>, at 16 kHz.\<close>
definition default_config :: mixer_config where
  "default_config = \<lparr>original_volume = 3 / 10, translation_volume = 1, sample_rate = 16000\<rparr>"

section \<open>Facts about the string primitives\<close>

lemma py_endswith_iff: "py_endswith s suf \<longleftrightarrow> (\<exists>pre. s = pre @ suf)"
proof
  assume "py_endswith s suf"
  then have "s = take (length s - length suf) s @ suf"
    by (metis append_take_drop_id py_endswith_def)
  then show "\<exists>pre. s = pre @ suf" ..
next
  assume "\<exists>pre. s = pre @ suf"
  then show "py_endswith s suf" by (auto simp: py_endswith_def)
qed

lemma not_space_dot [simp]: "\<not> is_space CHR ''.''"
  by (simp add: is_space_def)

lemma dropWhile_all: "\<forall>x\<in>set xs. P x \<Longrightarrow> dropWhile P xs = []"
  by (induction xs) auto

lemma last_dropWhile_keep: "dropWhile P p \<noteq> [] \<Longrightarrow> last (dropWhile P p) = last p"
  by (induction p) (auto split: if_splits)

lemma py_strip_append_nonspace:
  assumes "ys \<noteq> []" "\<not> is_space (hd ys)" "\<not> is_space (last ys)"
  shows "py_strip (p @ ys) = dropWhile is_space p @ ys"
proof -
  have 1: "dropWhile is_space (p @ ys) = dropWhile is_space p @ ys"
    using assms by (cases ys) (auto simp: dropWhile_append dropWhile_all)
  obtain zs z where ys: "ys = zs @ [z]"
    using assms(1) by (cases ys rule: rev_cases) auto
  have 2: "dropWhile is_space (rev (dropWhile is_space p @ ys)) = rev (dropWhile is_space p @ ys)"
    using assms(3) unfolding ys by simp
  show ?thesis
    unfolding py_strip_def 1 2 by simp
qed

lemma ellipsis_loop_stop: "\<not> py_endswith t ''...'' \<Longrightarrow> ellipsis_loop t = t"
  by (subst ellipsis_loop.simps) (auto simp: py_endswith_iff)

lemma ellipsis_loop_step:
  "py_endswith t ''...'' \<Longrightarrow> ellipsis_loop t = ellipsis_loop (py_strip (take (length t - 3) t))"
  by (subst ellipsis_loop.simps) simp

lemma four_dots:
  assumes "p = [] \<or> last p \<noteq> CHR ''.''"
  shows "ellipsis_loop (py_strip (p @ ''....'')) = dropWhile is_space p @ ''.''"
    and "py_strip (p @ ''....'') = dropWhile is_space p @ ''....''"
proof -
  let ?q = "dropWhile is_space p"
  have q: "?q = [] \<or> last ?q \<noteq> CHR ''.''"
  proof (cases "?q = []")
    case False
    then have "p \<noteq> []" by auto
    with assms False show ?thesis by (simp add: last_dropWhile_keep)
  qed simp
  show s1: "py_strip (p @ ''....'') = ?q @ ''....''"
    by (rule py_strip_append_nonspace) simp_all
  have e1: "py_endswith (?q @ ''....'') ''...''"
    unfolding py_endswith_iff by (rule exI [of _ "?q @ ''.''"]) simp
  have t: "take (length (?q @ ''....'') - 3) (?q @ ''....'') = ?q @ ''.''"
    by simp
  have s2: "py_strip (?q @ ''.'') = ?q @ ''.''"
    using py_strip_append_nonspace [of "''.''" "?q"] by simp
  have e2: "\<not> py_endswith (?q @ ''.'') ''...''"
  proof
    assume "py_endswith (?q @ ''.'') ''...''"
    then obtain pre where "?q @ ''.'' = pre @ ''...''" unfolding py_endswith_iff ..
    then have "?q = pre @ ''..''" by simp
    with q show False by simp
  qed
  show "ellipsis_loop (py_strip (p @ ''....'')) = ?q @ ''.''"
    unfolding s1 ellipsis_loop_step [OF e1] t s2 by (rule ellipsis_loop_stop [OF e2])
qed

section \<open>Four trailing dots\<close>

text \<open>
  C10. A text that ends in exactly four dots (the part \<open>p\<close> before them does not end in a
  dot) loses exactly three characters to the ellipsis loop, which then stops: the cleaned
  text, as \<open>on_transcription\<close> computes it at lines 658-660, is \<open>p\<close> without its leading
  whitespace followed by one period, and \<open>_is_sentence_complete\<close> judges the text complete.
\<close>
theorem ellipsis_four_dots:
  assumes "p = [] \<or> last p \<noteq> CHR ''.''"
  shows "ellipsis_loop (py_strip (p @ ''....'')) = dropWhile is_space p @ ''.''
         \<and> length (ellipsis_loop (py_strip (p @ ''....''))) + 3 = length (py_strip (p @ ''....''))
         \<and> is_sentence_complete (p @ ''....'')"
proof -
  note fd = four_dots [OF assms]
  note fd' = fd(1) [unfolded fd(2)]
  have "is_sentence_complete (p @ ''....'')"
    unfolding is_sentence_complete_def Let_def fd(2) fd' by simp
  then show ?thesis
    unfolding fd(2) fd' by simp
qed

theorem ellipsis_four_dots_witness:
  "(''word'' = [] \<or> last ''word'' \<noteq> CHR ''.'')
   \<and> ellipsis_loop (py_strip ''word....'') = ''word.''
   \<and> is_sentence_complete ''word....''"
  using ellipsis_four_dots [of "''word''"] by (simp add: is_space_def)

section \<open>Facts about splitting, joining and cleaning\<close>

lemma py_split_Nil_iff: "py_split s = [] \<longleftrightarrow> \<not> has_word s"
proof (cases "dropWhile is_space s")
  case Nil
  then have "\<not> has_word s"
    by (simp add: has_word_def dropWhile_eq_Nil_conv)
  with Nil show ?thesis
    unfolding py_split.simps [of s] by (simp del: dropWhile_eq_Nil_conv)
next
  case (Cons c cs)
  then have "\<not> (\<forall>x \<in> set s. is_space x)"
    using dropWhile_eq_Nil_conv [of is_space s] by simp
  then have "has_word s"
    by (simp add: has_word_def)
  with Cons show ?thesis
    unfolding py_split.simps [of s] by simp
qed

lemma py_split_proper: "\<forall>w \<in> set (py_split s). proper_word w"
proof (induction s rule: py_split.induct)
  case (1 s)
  show ?case
  proof (cases "dropWhile is_space s")
    case Nil
    then show ?thesis
      unfolding py_split.simps [of s] by (simp del: dropWhile_eq_Nil_conv)
  next
    case (Cons c cs)
    then have "\<not> is_space c"
      using hd_dropWhile [of is_space s] by simp
    moreover have "\<forall>x \<in> set (takeWhile (\<lambda>x. \<not> is_space x) cs). \<not> is_space x"
      using set_takeWhileD by fastforce
    ultimately have "proper_word (c # takeWhile (\<lambda>x. \<not> is_space x) cs)"
      by (simp add: proper_word_def)
    with 1 [OF Cons] Cons show ?thesis
      unfolding py_split.simps [of s] by simp
  qed
qed

lemma py_split_space_Cons: "is_space c \<Longrightarrow> py_split (c # s) = py_split s"
  by (subst py_split.simps, subst (2) py_split.simps) simp

lemma py_split_word_only: "proper_word w \<Longrightarrow> py_split w = [w]"
proof -
  assume p: "proper_word w"
  then obtain a w' where w: "w = a # w'" by (cases w) (auto simp: proper_word_def)
  with p have a: "\<not> is_space a" and w': "\<forall>c \<in> set w'. \<not> is_space c"
    by (auto simp: proper_word_def)
  from w' have t: "takeWhile (\<lambda>x. \<not> is_space x) w' = w'" by simp
  from w' have d: "dropWhile (\<lambda>x. \<not> is_space x) w' = []" by (simp add: dropWhile_all)
  have e: "py_split [] = []" by (subst py_split.simps) simp
  show ?thesis
    unfolding w by (subst py_split.simps) (simp add: a t d e)
qed

lemma py_split_word_space:
  assumes "proper_word w" "is_space c"
  shows "py_split (w @ c # s) = w # py_split s"
proof -
  from assms(1) obtain a w' where w: "w = a # w'" by (cases w) (auto simp: proper_word_def)
  with assms(1) have a: "\<not> is_space a" and w': "\<forall>x \<in> set w'. \<not> is_space x"
    by (auto simp: proper_word_def)
  from w' assms(2) have t: "takeWhile (\<lambda>x. \<not> is_space x) (w' @ c # s) = w'"
    by (simp add: takeWhile_append2 takeWhile_append1)
  from w' assms(2) have d: "dropWhile (\<lambda>x. \<not> is_space x) (w' @ c # s) = c # s"
    by (simp add: dropWhile_append2 dropWhile_append1)
  show ?thesis
    unfolding w
    by (subst py_split.simps) (simp add: a t d py_split_space_Cons [OF assms(2)])
qed

lemma is_space_blank [simp]: "is_space CHR '' ''"
  by (simp add: is_space_def)

lemma py_split_join:
  "\<forall>w \<in> set ws. proper_word w \<Longrightarrow> py_split (py_join ws) = ws"
proof (induction ws rule: py_join.induct)
  case 1
  show ?case by (subst py_split.simps) simp
next
  case (2 w)
  then show ?case by (simp add: py_split_word_only)
next
  case (3 w v ws)
  then show ?case by (simp add: py_split_word_space)
qed

lemma clean_loop_Cons: "\<exists>ys. clean_loop (w # ws) = w # ys"
  by (simp add: clean_loop.simps(2) Let_def)

lemma clean_loop_hd: "ws \<noteq> [] \<Longrightarrow> clean_loop ws \<noteq> [] \<and> hd (clean_loop ws) = hd ws"
proof -
  assume "ws \<noteq> []"
  then obtain w ws' where ws: "ws = w # ws'" by (cases ws) auto
  obtain ys where "clean_loop (w # ws') = w # ys" using clean_loop_Cons by blast
  then show ?thesis unfolding ws by simp
qed

lemma clean_loop_subset: "set (clean_loop ws) \<subseteq> set ws"
proof (induction ws rule: clean_loop.induct)
  case 1
  show ?case by simp
next
  case (2 word rest)
  let ?n = "length (takeWhile (\<lambda>w. loop_key w = loop_key word) rest)"
  have d: "set (drop k rest) \<subseteq> set rest" for k
    by (rule set_drop_subset)
  show ?case
  proof (cases "Suc ?n \<ge> 3")
    case True
    then have "rest \<noteq> []" by auto
    with True 2(1) [OF refl True] d [of "Suc ?n - 1"] show ?thesis
      by (subst clean_loop.simps(2)) (auto simp: Let_def)
  next
    case False
    show ?thesis
    proof (cases "Suc ?n = 2")
      case True
      with False 2(2) [OF refl False True] d [of "Suc ?n - 1"] show ?thesis
        by (subst clean_loop.simps(2)) (auto simp: Let_def)
    next
      case F2: False
      with False 2(3) [OF refl False F2] show ?thesis
        by (subst clean_loop.simps(2)) (auto simp: Let_def)
    qed
  qed
qed

section \<open>The accumulator, step by step\<close>

lemma on_transcription_skipped:
  "fragment_skipped st text \<Longrightarrow> on_transcription now text st = ([], st)"
  by (auto simp: fragment_skipped_def on_transcription_def text_clean_def Let_def)

lemma on_transcription_merged:
  assumes "\<not> fragment_skipped st text"
  shows "on_transcription now text st =
    (let b = merged_buffer st text;
         c = ellipsis_loop (py_strip b);
         st' = st\<lparr>buffer_start_time := (if sentence_buffer st = [] then Some now else buffer_start_time st),
                  sentence_buffer := b, last_fragment_time := Some now\<rparr>
     in if is_sentence_complete b \<or> (timeout_reached now st \<and> length b \<ge> min_sentence_length)
        then if length c < 20
             then ([], st'\<lparr>sentence_buffer := [], buffer_start_time := None, last_fragment_time := None\<rparr>)
             else ([c], st'\<lparr>recent_transcriptions := push_recent (py_lower c) (recent_transcriptions st),
                              last_transcription_time := Some now,
                              sentence_buffer := [], buffer_start_time := None, last_fragment_time := None\<rparr>)
        else ([], st'))"
  using assms
  by (auto simp: fragment_skipped_def on_transcription_def text_clean_def Let_def merged_buffer_def
      timeout_reached_def push_recent_def)

lemma ellipsis_loop_Nil [simp]: "ellipsis_loop [] = []"
  by (rule ellipsis_loop_stop) (simp add: py_endswith_def)

lemma is_sentence_complete_iff:
  "is_sentence_complete b \<longleftrightarrow>
     ellipsis_loop (py_strip b) \<noteq> [] \<and> last (ellipsis_loop (py_strip b)) \<in> set ''.!?;''"
  by (cases "py_strip b = []") (simp_all add: is_sentence_complete_def Let_def)

lemma clean_loop_unfold:
  "clean_loop (w # rest) =
     (if length (takeWhile (\<lambda>v. loop_key v = loop_key w) rest) \<ge> 2
      then w # hd rest # clean_loop (dropWhile (\<lambda>v. loop_key v = loop_key w) rest)
      else w # clean_loop (dropWhile (\<lambda>v. loop_key v = loop_key w) rest))"
proof -
  let ?P = "\<lambda>v. loop_key v = loop_key w"
  let ?n = "length (takeWhile ?P rest)"
  have d: "dropWhile ?P rest = drop ?n rest"
    by (rule dropWhile_eq_drop)
  consider "?n \<ge> 2" | "?n = 1" | "?n = 0" by linarith
  then show ?thesis
  proof cases
    case 1
    then have "rest \<noteq> []" by auto
    with 1 show ?thesis
      by (simp add: clean_loop.simps(2) Let_def d)
  next
    case 2
    then show ?thesis
      by (simp add: clean_loop.simps(2) Let_def d)
  next
    case 3
    then show ?thesis
      by (simp add: clean_loop.simps(2) Let_def d)
  qed
qed

lemma rest_other_key:
  "dropWhile (\<lambda>v. loop_key v = k) rest \<noteq> []
   \<Longrightarrow> loop_key (hd (dropWhile (\<lambda>v. loop_key v = k) rest)) \<noteq> k"
  using hd_dropWhile [of "\<lambda>v. loop_key v = k" rest] by simp

lemma no_pair_Cons:
  "no_pair ys \<Longrightarrow> (ys \<noteq> [] \<longrightarrow> loop_key (hd ys) \<noteq> loop_key a) \<Longrightarrow> no_pair (a # ys)"
  by (cases ys) auto

lemma no_pair_tl: "no_pair (a # ys) \<Longrightarrow> no_pair ys"
  by (cases ys) auto

lemma no_triple_tl: "no_triple (a # ys) \<Longrightarrow> no_triple ys"
  by (cases ys; cases "tl ys") auto

lemma no_triple_Cons:
  "no_triple ys \<Longrightarrow> (ys \<noteq> [] \<longrightarrow> loop_key (hd ys) \<noteq> loop_key b)
   \<Longrightarrow> no_triple (b # ys) \<and> no_triple (a # b # ys)"
  by (cases ys; cases "tl ys") auto

lemma no_triple_dropWhile: "no_triple ys \<Longrightarrow> no_triple (dropWhile P ys)"
  by (induction ys) (auto dest: no_triple_tl)

lemma no_pair_clean_loop: "no_pair ws \<Longrightarrow> clean_loop ws = ws"
proof (induction ws)
  case Nil
  show ?case by simp
next
  case (Cons w ws)
  from Cons.prems have t: "takeWhile (\<lambda>v. loop_key v = loop_key w) ws = []"
    by (cases ws) auto
  then have d: "dropWhile (\<lambda>v. loop_key v = loop_key w) ws = ws"
    by (cases ws) (auto split: if_splits)
  from Cons.prems have "no_pair ws" by (rule no_pair_tl)
  with Cons.IH show ?case
    unfolding clean_loop_unfold t d by simp
qed

lemma no_triple_run:
  "no_triple (w # rest) \<Longrightarrow> length (takeWhile (\<lambda>v. loop_key v = loop_key w) rest) \<le> 1"
  by (cases rest; cases "tl rest") auto

lemma clean_loop_no_pair: "no_triple ws \<Longrightarrow> no_pair (clean_loop ws)"
proof (induction "length ws" arbitrary: ws rule: less_induct)
  case less
  show ?case
  proof (cases ws)
    case Nil
    then show ?thesis by simp
  next
    case (Cons w rest)
    let ?rem = "dropWhile (\<lambda>v. loop_key v = loop_key w) rest"
    have "length ?rem \<le> length rest" by (rule length_dropWhile_le)
    then have l: "length ?rem < length ws" using Cons by simp
    from less.prems Cons have "no_triple rest" by (auto dest: no_triple_tl)
    then have "no_triple ?rem" by (rule no_triple_dropWhile)
    with less.hyps [OF l] have ih: "no_pair (clean_loop ?rem)" .
    have k: "clean_loop ?rem \<noteq> [] \<longrightarrow> loop_key (hd (clean_loop ?rem)) \<noteq> loop_key w"
    proof
      assume c: "clean_loop ?rem \<noteq> []"
      have r: "?rem \<noteq> []"
      proof
        assume e: "?rem = []"
        from c show False unfolding e by simp
      qed
      with clean_loop_hd [OF r] rest_other_key [of "loop_key w" rest]
      show "loop_key (hd (clean_loop ?rem)) \<noteq> loop_key w" by simp
    qed
    from less.prems Cons have "\<not> length (takeWhile (\<lambda>v. loop_key v = loop_key w) rest) \<ge> 2"
      using no_triple_run [of w rest] by simp
    then have "clean_loop ws = w # clean_loop ?rem"
      unfolding Cons clean_loop_unfold by simp
    with no_pair_Cons [OF ih k] show ?thesis by simp
  qed
qed

lemma clean_loop_no_triple: "no_triple (clean_loop ws)"
proof (induction "length ws" arbitrary: ws rule: less_induct)
  case less
  show ?case
  proof (cases ws)
    case Nil
    then show ?thesis by simp
  next
    case (Cons w rest)
    let ?P = "\<lambda>v. loop_key v = loop_key w"
    let ?rem = "dropWhile ?P rest"
    have "length ?rem \<le> length rest" by (rule length_dropWhile_le)
    then have l: "length ?rem < length ws" using Cons by simp
    from less.hyps [OF l] have ih: "no_triple (clean_loop ?rem)" .
    have k: "clean_loop ?rem \<noteq> [] \<longrightarrow> loop_key (hd (clean_loop ?rem)) \<noteq> loop_key w"
    proof
      assume c: "clean_loop ?rem \<noteq> []"
      have r: "?rem \<noteq> []"
      proof
        assume e: "?rem = []"
        from c show False unfolding e by simp
      qed
      with clean_loop_hd [OF r] rest_other_key [of "loop_key w" rest]
      show "loop_key (hd (clean_loop ?rem)) \<noteq> loop_key w" by simp
    qed
    show ?thesis
    proof (cases "length (takeWhile ?P rest) \<ge> 2")
      case True
      then have "takeWhile ?P rest \<noteq> []" by auto
      then have "rest \<noteq> [] \<and> ?P (hd rest)"
        by (cases rest) (auto split: if_splits)
      then have h: "loop_key (hd rest) = loop_key w" by simp
      from k h have k': "clean_loop ?rem \<noteq> [] \<longrightarrow> loop_key (hd (clean_loop ?rem)) \<noteq> loop_key (hd rest)"
        by simp
      from True have "clean_loop ws = w # hd rest # clean_loop ?rem"
        unfolding Cons clean_loop_unfold by simp
      with no_triple_Cons [OF ih k', of w] show ?thesis by simp
    next
      case False
      then have "clean_loop ws = w # clean_loop ?rem"
        unfolding Cons clean_loop_unfold by simp
      with no_triple_Cons [OF ih k] show ?thesis by simp
    qed
  qed
qed

lemma clean_loop_proper:
  "\<forall>w \<in> set ws. proper_word w \<Longrightarrow> \<forall>w \<in> set (clean_loop ws). proper_word w"
  using clean_loop_subset [of ws] by blast

lemma py_split_cleaned:
  "\<not> length (py_split x) < 3
   \<Longrightarrow> py_split (clean_word_loops x) = clean_loop (py_split x)"
  using clean_loop_proper [OF py_split_proper, of x]
  by (simp add: clean_word_loops_def Let_def py_split_join)

lemma clean_twice_no_triple:
  assumes "no_triple (py_split x)"
  shows "clean_word_loops (clean_word_loops x) = clean_word_loops x"
proof (cases "length (py_split x) < 3")
  case True
  then show ?thesis by (simp add: clean_word_loops_def)
next
  case False
  have "clean_loop (clean_loop (py_split x)) = clean_loop (py_split x)"
    by (rule no_pair_clean_loop) (rule clean_loop_no_pair [OF assms])
  with False show ?thesis
    unfolding clean_word_loops_def [of "clean_word_loops x"] Let_def py_split_cleaned [OF False]
    by (simp add: clean_word_loops_def Let_def)
qed

lemma last_match_fold:
  fixes P :: "nat \<Rightarrow> bool"
  defines "F \<equiv> \<lambda>n. foldl (\<lambda>ov i. if P i then i else ov) 0 [1..<Suc n]"
  shows "(F n = 0 \<or> (1 \<le> F n \<and> F n \<le> n \<and> P (F n)))
         \<and> (\<forall>j. 1 \<le> j \<and> j \<le> n \<and> P j \<longrightarrow> j \<le> F n)"
proof (induction n)
  case 0
  show ?case by (simp add: F_def)
next
  case (Suc n)
  have step: "F (Suc n) = (if P (Suc n) then Suc n else F n)"
    by (simp add: F_def)
  show ?case
  proof (cases "P (Suc n)")
    case True
    with step show ?thesis by simp
  next
    case False
    with step have e: "F (Suc n) = F n" by simp
    have "\<forall>j. 1 \<le> j \<and> j \<le> Suc n \<and> P j \<longrightarrow> j \<le> F n"
    proof (intro allI impI)
      fix j
      assume a: "1 \<le> j \<and> j \<le> Suc n \<and> P j"
      with False have "j \<noteq> Suc n" by auto
      with a have "1 \<le> j \<and> j \<le> n \<and> P j" by simp
      with Suc show "j \<le> F n" by blast
    qed
    moreover from Suc have "F n = 0 \<or> (1 \<le> F n \<and> F n \<le> Suc n \<and> P (F n))"
      by auto
    ultimately show ?thesis unfolding e by blast
  qed
qed

lemma find_Some_in: "find P xs = Some x \<Longrightarrow> P x \<and> x \<in> set xs"
  by (induction xs) (auto split: if_splits)

lemma overlap_length_largest:
  fixes bw fw :: "string list"
  defines "k \<equiv> overlap_length bw fw"
  shows "(k = 0 \<or> (1 \<le> k \<and> k \<le> min (length bw) (length fw) \<and> last_n k bw = take k fw))
         \<and> (\<forall>j. 1 \<le> j \<and> j \<le> min (length bw) (length fw) \<and> last_n j bw = take j fw
                \<longrightarrow> j \<le> k)"
proof -
  let ?P = "\<lambda>i. last_n i bw = take i fw"
  let ?m = "min (length bw) (length fw)"
  let ?F = "foldl (\<lambda>ov i. if ?P i then i else ov) 0 [1..<Suc ?m]"
  note lm = last_match_fold [of ?P ?m]
  have "k = ?F"
  proof (cases "find ?P [1..<?m]")
    case None
    then show ?thesis by (simp add: k_def overlap_length_def Let_def)
  next
    case (Some i)
    then have "?P i \<and> i \<in> set [1..<?m]"
      by (rule find_Some_in)
    then have "1 \<le> i \<and> i \<le> ?m \<and> ?P i" by auto
    with lm have "i \<le> ?F" by blast
    with Some show ?thesis by (simp add: k_def overlap_length_def Let_def max_def)
  qed
  with lm show ?thesis by simp
qed

lemma no_overlap_last_hd:
  assumes "overlap_length bw fw = 0" "bw \<noteq> []" "fw \<noteq> []"
  shows "last bw \<noteq> hd fw"
proof
  assume e: "last bw = hd fw"
  from assms(2) have "drop (length bw - 1) bw = [last bw]"
    by (cases bw rule: rev_cases) auto
  moreover from assms(3) have "take 1 fw = [hd fw]" by (cases fw) auto
  ultimately have "last_n 1 bw = take 1 fw"
    using e by (simp add: last_n_def)
  moreover from assms(2,3) have "1 \<le> min (length bw) (length fw)"
    by (cases bw; cases fw) auto
  ultimately have "(1::nat) \<le> overlap_length bw fw"
    using overlap_length_largest [of bw fw] by blast
  with assms(1) show False by simp
qed

lemma merge_fragments_concat:
  assumes "buffer \<noteq> []" "\<not> calculate_similarity buffer (clean_word_loops fragment) > 0.8"
  shows "merge_fragments buffer fragment =
           py_strip (clean_word_loops (buffer @ '' '' @
             (if overlap_length (py_split buffer) (py_split (clean_word_loops fragment)) = 0
              then clean_word_loops fragment
              else py_join (drop (overlap_length (py_split buffer)
                                    (py_split (clean_word_loops fragment)))
                                 (py_split (clean_word_loops fragment))))))"
proof (cases "overlap_length (py_split buffer) (py_split (clean_word_loops fragment)) = 0")
  case True
  with no_overlap_last_hd [OF True] assms show ?thesis
    by (auto simp: merge_fragments_def Let_def)
next
  case False
  with assms show ?thesis
    by (simp add: merge_fragments_def Let_def)
qed

lemma py_strip_subset: "set (py_strip s) \<subseteq> set s"
proof -
  have "set (dropWhile is_space (rev (dropWhile is_space s))) \<subseteq> set (rev (dropWhile is_space s))"
    by (rule set_dropWhileD [THEN subsetI])
  moreover have "set (dropWhile is_space s) \<subseteq> set s"
    by (rule set_dropWhileD [THEN subsetI])
  ultimately show ?thesis by (auto simp: py_strip_def)
qed

lemma py_strip_Nil_iff: "py_strip s = [] \<longleftrightarrow> \<not> has_word s"
proof (cases "dropWhile is_space s")
  case Nil
  then have "\<not> has_word s" by (simp add: has_word_def dropWhile_eq_Nil_conv)
  with Nil show ?thesis by (simp add: py_strip_def del: dropWhile_eq_Nil_conv)
next
  case (Cons c cs)
  then have c: "\<not> is_space c"
    using hd_dropWhile [of is_space s] by simp
  then have "dropWhile is_space (rev cs @ [c]) \<noteq> []"
    by (simp add: dropWhile_eq_Nil_conv)
  then have "py_strip s \<noteq> []"
    by (simp add: py_strip_def Cons del: dropWhile_eq_Nil_conv)
  moreover from Cons have "has_word s"
    using dropWhile_eq_Nil_conv [of is_space s] by (auto simp: has_word_def)
  ultimately show ?thesis by simp
qed

lemma has_word_py_strip: "has_word (py_strip s) \<longleftrightarrow> has_word s"
proof
  assume "has_word (py_strip s)"
  then show "has_word s" using py_strip_subset [of s] by (auto simp: has_word_def)
next
  assume "has_word s"
  then have n: "py_strip s \<noteq> []" by (simp add: py_strip_Nil_iff)
  let ?u = "dropWhile is_space (rev (dropWhile is_space s))"
  from n have u: "?u \<noteq> []" by (simp add: py_strip_def del: dropWhile_eq_Nil_conv)
  then have "\<not> is_space (hd ?u)" by (rule hd_dropWhile)
  moreover from u have "hd ?u \<in> set (py_strip s)" by (simp add: py_strip_def)
  ultimately show "has_word (py_strip s)" by (auto simp: has_word_def)
qed

lemma has_word_not_Nil: "has_word s \<Longrightarrow> s \<noteq> []"
  by (auto simp: has_word_def)

lemma ellipsis_loop_has_word:
  "t = [] \<or> has_word t \<Longrightarrow> ellipsis_loop t = [] \<or> has_word (ellipsis_loop t)"
proof (induction t rule: ellipsis_loop.induct)
  case (1 t)
  show ?case
  proof (cases "py_endswith t ''...''")
    case True
    let ?u = "py_strip (take (length t - 3) t)"
    have "?u = [] \<or> has_word ?u"
      using py_strip_Nil_iff [of "take (length t - 3) t"] has_word_py_strip by blast
    with 1(1) True have "ellipsis_loop ?u = [] \<or> has_word (ellipsis_loop ?u)" by blast
    then show ?thesis unfolding ellipsis_loop_step [OF True] .
  next
    case False
    with 1(2) show ?thesis by (simp add: ellipsis_loop_stop)
  qed
qed

lemma text_clean_has_word: "text_clean text \<noteq> [] \<Longrightarrow> has_word (text_clean text)"
proof -
  have "py_strip text = [] \<or> has_word (py_strip text)"
    using py_strip_Nil_iff [of "text"] has_word_py_strip by blast
  then have "ellipsis_loop (py_strip text) = [] \<or> has_word (ellipsis_loop (py_strip text))"
    by (rule ellipsis_loop_has_word)
  then show "text_clean text \<noteq> [] \<Longrightarrow> has_word (text_clean text)"
    by (simp add: text_clean_def)
qed

lemma py_join_Cons: "\<exists>r. py_join (w # ys) = w @ r"
  by (cases ys) auto

lemma has_word_append: "has_word (a @ b) \<longleftrightarrow> has_word a \<or> has_word b"
  by (auto simp: has_word_def)

lemma has_word_Cons: "has_word (c # s) \<longleftrightarrow> \<not> is_space c \<or> has_word s"
  by (auto simp: has_word_def)

lemma has_word_clean_word_loops:
  assumes "has_word s"
  shows "has_word (clean_word_loops s)"
proof (cases "length (py_split s) < 3")
  case True
  with assms show ?thesis by (simp add: clean_word_loops_def)
next
  case False
  then obtain w ws where ws: "py_split s = w # ws" by (cases "py_split s") auto
  then have "proper_word w" using py_split_proper [of s] by simp
  then have hw: "has_word w" by (cases w) (auto simp: proper_word_def has_word_def)
  obtain ys where "clean_loop (w # ws) = w # ys" using clean_loop_Cons by blast
  moreover obtain r where "py_join (w # ys) = w @ r" using py_join_Cons by blast
  ultimately have "clean_word_loops s = w @ r"
    using False by (simp add: clean_word_loops_def ws)
  with hw show ?thesis by (simp add: has_word_append)
qed

lemma merge_fragments_not_Nil:
  assumes "has_word f"
  shows "merge_fragments b f \<noteq> []"
proof -
  let ?nf = "clean_word_loops f"
  have nf: "has_word ?nf" by (rule has_word_clean_word_loops [OF assms])
  show ?thesis
  proof (cases "b = []")
    case True
    with nf show ?thesis by (simp add: merge_fragments_def has_word_not_Nil)
  next
    case b: False
    show ?thesis
    proof (cases "calculate_similarity b ?nf > 0.8")
      case True
      with b nf show ?thesis by (simp add: merge_fragments_def Let_def has_word_not_Nil)
    next
      case False
      let ?k = "overlap_length (py_split b) (py_split ?nf)"
      let ?x = "if ?k = 0 then ?nf else py_join (drop ?k (py_split ?nf))"
      have "has_word (b @ '' '' @ ?x)"
      proof (cases "?k = 0")
        case True
        with nf show ?thesis by (simp add: has_word_append has_word_Cons)
      next
        case k: False
        with overlap_length_largest [of "py_split b" "py_split ?nf"]
        have "1 \<le> length (py_split b)" by auto
        then have "py_split b \<noteq> []" by auto
        then have "has_word b" by (simp add: py_split_Nil_iff)
        then show ?thesis by (simp add: has_word_append has_word_Cons)
      qed
      then have "has_word (py_strip (clean_word_loops (b @ '' '' @ ?x)))"
        by (simp add: has_word_py_strip has_word_clean_word_loops)
      then show ?thesis
        unfolding merge_fragments_concat [OF b False] by (rule has_word_not_Nil)
    qed
  qed
qed

lemma sint_astype_int16:
  assumes "\<bar>y\<bar> < 32768"
  shows "\<bar>sint (astype_int16 y)\<bar> \<le> 32767"
proof -
  have t: "\<bar>trunc_to_zero y\<bar> \<le> 32767"
  proof (cases "y \<ge> 0")
    case True
    then have "0 \<le> \<lfloor>y\<rfloor>" by simp
    moreover from assms have "\<lfloor>y\<rfloor> < 32768" by (simp add: floor_less_iff)
    ultimately show ?thesis using True by (simp add: trunc_to_zero_def)
  next
    case False
    then have "\<lceil>y\<rceil> \<le> 0" by (simp add: ceiling_le_iff)
    moreover have "- 32768 < \<lceil>y\<rceil>"
    proof -
      have "y \<le> of_int \<lceil>y\<rceil>" by (rule le_of_int_ceiling)
      with assms have "(- 32768 :: real) < of_int \<lceil>y\<rceil>" by linarith
      then have "real_of_int (- 32768) < of_int \<lceil>y\<rceil>" by simp
      then show ?thesis by (simp only: of_int_less_iff)
    qed
    ultimately have "\<bar>\<lceil>y\<rceil>\<bar> \<le> 32767" by linarith
    then show ?thesis using False by (simp add: trunc_to_zero_def)
  qed
  then have "- (2 ^ 15) \<le> trunc_to_zero y" "trunc_to_zero y < 2 ^ 15" by simp_all
  then have "signed_take_bit 15 (trunc_to_zero y) = trunc_to_zero y"
    by (rule signed_take_bit_int_eq_self)
  then have "sint (astype_int16 y) = trunc_to_zero y"
    by (simp add: astype_int16_def sint_sbintrunc')
  with t show ?thesis by simp
qed

lemma float32_rounding_abs:
  assumes "float32_rounding rnd" "\<bar>x\<bar> \<le> 262144"
  shows "\<bar>rnd x\<bar> \<le> \<bar>x\<bar> + \<bar>x\<bar> / 8388608 + 1 / 1099511627776"
proof -
  from assms have "\<bar>rnd x - x\<bar> \<le> \<bar>x\<bar> / 2 ^ 23 + 1 / 2 ^ 40"
    by (simp add: float32_rounding_def)
  then have "\<bar>rnd x - x\<bar> \<le> \<bar>x\<bar> / 8388608 + 1 / 1099511627776" by simp
  then show ?thesis by linarith
qed

lemma astype_float32_bound: "\<bar>astype_float32 w\<bar> \<le> 32768"
proof -
  have "- (2 ^ 15) \<le> sint w" "sint w < 2 ^ 15"
    using sint_ge [of w] sint_lt [of w] by simp_all
  then have "\<bar>sint w\<bar> \<le> 32768" by simp
  then have "\<bar>real_of_int (sint w)\<bar> \<le> real_of_int 32768"
    by (metis of_int_abs of_int_le_iff)
  then show ?thesis by (simp add: astype_float32_def)
qed

lemma scaled_sample_bound:
  assumes r: "float32_rounding rnd" and v: "0 \<le> v" "v \<le> 1"
  shows "\<bar>rnd (astype_float32 w * rnd v)\<bar> \<le> 32769"
proof -
  let ?s = "astype_float32 w"
  have s: "\<bar>?s\<bar> \<le> 32768" by (rule astype_float32_bound)
  from v have "\<bar>v\<bar> \<le> 262144" by simp
  from float32_rounding_abs [OF r this] v
  have rv: "\<bar>rnd v\<bar> \<le> 1 + 1 / 8388608 + 1 / 1099511627776"
    by (simp add: abs_if)
  have "\<bar>?s * rnd v\<bar> = \<bar>?s\<bar> * \<bar>rnd v\<bar>" by (rule abs_mult)
  also have "\<dots> \<le> 32768 * (1 + 1 / 8388608 + 1 / 1099511627776)"
    by (rule mult_mono [OF s rv]) simp_all
  finally have p: "\<bar>?s * rnd v\<bar> \<le> 32768 + 1 / 256 + 1 / 33554432" by simp
  then have "\<bar>?s * rnd v\<bar> \<le> 262144" by simp
  from float32_rounding_abs [OF r this] p show ?thesis by simp
qed

lemma sum_bound:
  assumes r: "float32_rounding rnd" and a: "\<bar>a\<bar> \<le> 32770" and b: "\<bar>b\<bar> \<le> 32769"
  shows "\<bar>rnd (a + b)\<bar> \<le> 65540"
proof -
  from a b have p: "\<bar>a + b\<bar> \<le> 65539" by linarith
  then have "\<bar>a + b\<bar> \<le> 262144" by simp
  from float32_rounding_abs [OF r this] p show ?thesis by simp
qed

lemma scaled_down_bound:
  assumes r: "float32_rounding rnd"
    and m: "32767 < m" "m \<le> 131072"
    and x: "\<bar>x\<bar> \<le> m"
  shows "\<bar>rnd (x * rnd (32767 / m))\<bar> < 32768"
proof -
  define q where "q = 32767 / m"
  define f where "f = rnd q"
  from m have q: "0 < q" "q < 1" and mq: "m * q = 32767"
    by (simp_all add: q_def)
  then have "\<bar>q\<bar> \<le> 262144" by linarith
  from float32_rounding_abs [OF r this] q
  have f: "\<bar>f\<bar> \<le> q + q / 8388608 + 1 / 1099511627776"
    unfolding f_def by linarith
  have "\<bar>x * f\<bar> = \<bar>x\<bar> * \<bar>f\<bar>" by (rule abs_mult)
  also have "\<dots> \<le> m * (q + q / 8388608 + 1 / 1099511627776)"
    by (rule mult_mono [OF x f]) (use m in simp_all)
  also have "\<dots> = m * q + (m * q) / 8388608 + m / 1099511627776"
    by (simp add: algebra_simps)
  also have "\<dots> = 32767 + 32767 / 8388608 + m / 1099511627776"
    unfolding mq by simp
  also have "\<dots> \<le> 32767 + 32767 / 8388608 + 131072 / 1099511627776"
    using m by simp
  finally have p: "\<bar>x * f\<bar> \<le> 32767 + 1 / 128" by simp
  then have "\<bar>x * f\<bar> \<le> 262144" by linarith
  from float32_rounding_abs [OF r this] p
  have "\<bar>rnd (x * f)\<bar> < 32768" by linarith
  then show ?thesis unfolding f_def q_def .
qed

lemma normalize_int16_bound:
  assumes r: "float32_rounding rnd"
    and n: "mixed \<noteq> []"
    and b: "\<forall>x \<in> set mixed. \<bar>x\<bar> \<le> 131072"
  shows "\<exists>out. normalize_int16 rnd mixed = Inr out \<and> length out = length mixed
               \<and> (\<forall>w \<in> set out. \<bar>sint w\<bar> \<le> 32767)"
proof -
  let ?m = "Max (set (map abs mixed))"
  have fin: "finite (set (map abs mixed))" by simp
  from n have ne: "set (map abs mixed) \<noteq> {}" by simp
  have le: "\<bar>x\<bar> \<le> ?m" if "x \<in> set mixed" for x
    using that by (intro Max_ge) auto
  have "?m \<in> set (map abs mixed)" using fin ne by (rule Max_in)
  then obtain x0 where "x0 \<in> set mixed" "?m = \<bar>x0\<bar>" by auto
  with b have mb: "?m \<le> 131072" by auto
  show ?thesis
  proof (cases "?m > 32767")
    case True
    have "\<forall>w \<in> set (map astype_int16 (map (\<lambda>x. rnd (x * rnd (32767 / ?m))) mixed)).
            \<bar>sint w\<bar> \<le> 32767"
    proof
      fix w
      assume "w \<in> set (map astype_int16 (map (\<lambda>x. rnd (x * rnd (32767 / ?m))) mixed))"
      then obtain x where x: "x \<in> set mixed" "w = astype_int16 (rnd (x * rnd (32767 / ?m)))"
        by auto
      from scaled_down_bound [OF r True mb le [OF x(1)]]
      show "\<bar>sint w\<bar> \<le> 32767" unfolding x(2) by (rule sint_astype_int16)
    qed
    with True n show ?thesis
      by (simp add: normalize_int16_def Let_def)
  next
    case False
    have "\<forall>w \<in> set (map astype_int16 mixed). \<bar>sint w\<bar> \<le> 32767"
    proof
      fix w
      assume "w \<in> set (map astype_int16 mixed)"
      then obtain x where x: "x \<in> set mixed" "w = astype_int16 x" by auto
      from le [OF x(1)] False have "\<bar>x\<bar> < 32768" by simp
      then show "\<bar>sint w\<bar> \<le> 32767" unfolding x(2) by (rule sint_astype_int16)
    qed
    with False n show ?thesis
      by (simp add: normalize_int16_def Let_def)
  qed
qed

lemma rounded_zero_sum_bound:
  assumes r: "float32_rounding rnd" and x: "\<bar>x\<bar> \<le> 32769"
  shows "\<bar>rnd (0 + x)\<bar> \<le> 32770"
proof -
  from x have "\<bar>0 + x\<bar> \<le> 262144" by simp
  from float32_rounding_abs [OF r this] x show ?thesis by simp
qed

lemma set_map2D:
  "z \<in> set (map2 f xs ys) \<Longrightarrow> \<exists>a \<in> set xs. \<exists>b \<in> set ys. z = f a b"
  by (auto dest: set_zip_leftD set_zip_rightD)

lemma scaled_list_bound:
  assumes "float32_rounding rnd" "0 \<le> v" "v \<le> 1"
  shows "\<forall>x \<in> set (map (\<lambda>w. rnd (astype_float32 w * rnd v)) ws @ replicate n 0). \<bar>x\<bar> \<le> 32769"
  using scaled_sample_bound [OF assms] by auto

lemma mix_audio_arrays_eq:
  "mix_audio_arrays rnd cfg original translation =
     normalize_int16 rnd
       (map2 (\<lambda>a b. rnd (a + b))
          (map (\<lambda>w. rnd (astype_float32 w * rnd (original_volume cfg))) original
             @ replicate (max (length original) (length translation) - length original) 0)
          (map (\<lambda>w. rnd (astype_float32 w * rnd (translation_volume cfg))) translation
             @ replicate (max (length original) (length translation) - length translation) 0))"
proof -
  have p: "(if length xs < n then np_pad xs (n - length xs) else xs) = xs @ replicate (n - length xs) 0"
    for xs :: "real list" and n
    by (simp add: np_pad_def)
  show ?thesis
    unfolding mix_audio_arrays_def Let_def p by (simp add: comp_def)
qed

lemma mix_audio_arrays_bound:
  assumes r: "float32_rounding rnd"
    and v: "0 \<le> original_volume cfg" "original_volume cfg \<le> 1"
           "0 \<le> translation_volume cfg" "translation_volume cfg \<le> 1"
    and n: "original \<noteq> [] \<or> translation \<noteq> []"
  shows "\<exists>out. mix_audio_arrays rnd cfg original translation = Inr out
               \<and> length out = max (length original) (length translation)
               \<and> (\<forall>w \<in> set out. \<bar>sint w\<bar> \<le> 32767)"
proof -
  let ?n = "max (length original) (length translation)"
  let ?oa = "map (\<lambda>w. rnd (astype_float32 w * rnd (original_volume cfg))) original
             @ replicate (?n - length original) 0"
  let ?ta = "map (\<lambda>w. rnd (astype_float32 w * rnd (translation_volume cfg))) translation
             @ replicate (?n - length translation) 0"
  let ?mixed = "map2 (\<lambda>a b. rnd (a + b)) ?oa ?ta"
  have len: "length ?mixed = ?n" by simp
  with n have ne: "?mixed \<noteq> []" by (cases original; cases translation) auto
  have "\<forall>x \<in> set ?mixed. \<bar>x\<bar> \<le> 131072"
  proof
    fix x
    assume xm: "x \<in> set ?mixed"
    from set_map2D [OF xm] obtain a where a1: "a \<in> set ?oa"
      and a2: "\<exists>b \<in> set ?ta. x = rnd (a + b)"
      by (rule bexE)
    from a2 obtain b where b1: "b \<in> set ?ta" and ab: "x = rnd (a + b)"
      by (rule bexE)
    have "\<bar>a\<bar> \<le> 32769"
      by (rule bspec [OF scaled_list_bound [OF r v(1,2)] a1])
    then have a: "\<bar>a\<bar> \<le> 32770" by simp
    have b: "\<bar>b\<bar> \<le> 32769"
      by (rule bspec [OF scaled_list_bound [OF r v(3,4)] b1])
    from sum_bound [OF r a b] show "\<bar>x\<bar> \<le> 131072" unfolding ab by simp
  qed
  from normalize_int16_bound [OF r ne this] len show ?thesis
    unfolding mix_audio_arrays_eq by simp
qed

lemma mix_audio_arrays_empty: "mix_audio_arrays rnd cfg [] [] = Inl ValueError"
  by (simp add: mix_audio_arrays_def normalize_int16_def)

lemma normalize_int16_Inr:
  assumes r: "float32_rounding rnd"
    and b: "\<forall>x \<in> set mixed. \<bar>x\<bar> \<le> 131072"
    and e: "normalize_int16 rnd mixed = Inr out"
  shows "length out = length mixed \<and> (\<forall>w \<in> set out. \<bar>sint w\<bar> \<le> 32767)"
proof -
  from e have "mixed \<noteq> []" by (auto simp: normalize_int16_def)
  from normalize_int16_bound [OF r this b] e show ?thesis by auto
qed

lemma overlay_translation_eq:
  assumes "d = delay_samples_of rnd64 cfg delay_ms"
    and "orig = map (\<lambda>w. rnd (astype_float32 w * rnd (original_volume cfg))) original"
    and "tf = map (\<lambda>w. rnd (astype_float32 w * rnd (translation_volume cfg))) translation"
    and "ntot = nat (max (int (length orig)) (d + int (length tf)))"
    and "m1 = map2 (\<lambda>m x. rnd (m + x)) (take (length orig) (replicate ntot 0)) orig
                  @ drop (length orig) (replicate ntot 0)"
    and "start = py_slice_index d ntot"
    and "stop = py_slice_index (d + int (length tf)) ntot"
  shows "overlay_translation rnd64 rnd cfg original translation delay_ms =
           (if length tf = stop - start
            then normalize_int16 rnd
                   (take start m1
                    @ map2 (\<lambda>m x. rnd (m + x)) (take (stop - start) (drop start m1)) tf
                    @ drop (start + (stop - start)) m1)
            else if length tf = 1
            then normalize_int16 rnd
                   (take start m1
                    @ map (\<lambda>m. rnd (m + hd tf)) (take (stop - start) (drop start m1))
                    @ drop (start + (stop - start)) m1)
            else Inl ValueError)"
  unfolding overlay_translation_def Let_def assms
  by (rule refl)

lemma overlay_mixed_bound:
  fixes orig tf :: "real list" and ntot :: nat
  assumes r: "float32_rounding rnd"
    and o: "\<forall>x \<in> set orig. \<bar>x\<bar> \<le> 32769"
    and t: "\<forall>x \<in> set tf. \<bar>x\<bar> \<le> 32769"
  defines "m1 \<equiv> map2 (\<lambda>m x. rnd (m + x)) (take (length orig) (replicate ntot 0)) orig
                  @ drop (length orig) (replicate ntot 0)"
  shows "\<forall>x \<in> set (take s m1 @ map2 (\<lambda>m x. rnd (m + x)) (take sl (drop s m1)) tf @ drop e m1).
           \<bar>x\<bar> \<le> 131072"
    and "length tf = 1 \<Longrightarrow>
         \<forall>x \<in> set (take s m1 @ map (\<lambda>m. rnd (m + hd tf)) (take sl (drop s m1)) @ drop e m1).
           \<bar>x\<bar> \<le> 131072"
proof -
  have m: "\<bar>x\<bar> \<le> 32770" if "x \<in> set m1" for x
  proof -
    from that consider
      "x \<in> set (map2 (\<lambda>m x. rnd (m + x)) (take (length orig) (replicate ntot 0)) orig)"
      | "x \<in> set (drop (length orig) (replicate ntot 0))"
      unfolding m1_def set_append Un_iff by blast
    then show ?thesis
    proof cases
      case 1
      from set_map2D [OF 1] obtain a where a1: "a \<in> set (take (length orig) (replicate ntot 0))"
        and a2: "\<exists>b \<in> set orig. x = rnd (a + b)"
        by (rule bexE)
      from a2 obtain b where b1: "b \<in> set orig" and ab: "x = rnd (a + b)"
        by (rule bexE)
      from a1 have "a \<in> set (replicate ntot (0::real))" by (rule in_set_takeD)
      then have a: "a = 0" by simp
      from o b1 have "\<bar>b\<bar> \<le> 32769" by (rule bspec)
      from rounded_zero_sum_bound [OF r this] show ?thesis unfolding ab a .
    next
      case 2
      then have "x \<in> set (replicate ntot (0::real))" by (rule in_set_dropD)
      then show ?thesis by simp
    qed
  qed
  have big: "\<bar>x\<bar> \<le> 131072" if "x \<in> set m1" for x
    using m [OF that] by simp
  have sum: "\<bar>rnd (a + b)\<bar> \<le> 131072" if "a \<in> set (take sl (drop s m1))" "b \<in> set tf" for a b
  proof -
    from that(1) have "a \<in> set (drop s m1)" by (rule in_set_takeD)
    then have "a \<in> set m1" by (rule in_set_dropD)
    then have a: "\<bar>a\<bar> \<le> 32770" by (rule m)
    from t that(2) have b: "\<bar>b\<bar> \<le> 32769" by (rule bspec)
    from sum_bound [OF r a b] show ?thesis by simp
  qed
  show "\<forall>x \<in> set (take s m1 @ map2 (\<lambda>m x. rnd (m + x)) (take sl (drop s m1)) tf @ drop e m1).
           \<bar>x\<bar> \<le> 131072"
  proof
    fix x
    assume "x \<in> set (take s m1 @ map2 (\<lambda>m x. rnd (m + x)) (take sl (drop s m1)) tf @ drop e m1)"
    then consider "x \<in> set (take s m1)"
      | "x \<in> set (map2 (\<lambda>m x. rnd (m + x)) (take sl (drop s m1)) tf)"
      | "x \<in> set (drop e m1)"
      unfolding set_append Un_iff by blast
    then show "\<bar>x\<bar> \<le> 131072"
    proof cases
      case 1
      then have "x \<in> set m1" by (rule in_set_takeD)
      then show ?thesis by (rule big)
    next
      case 2
      from set_map2D [OF 2] obtain a where a1: "a \<in> set (take sl (drop s m1))"
        and a2: "\<exists>b \<in> set tf. x = rnd (a + b)"
        by (rule bexE)
      from a2 obtain b where b1: "b \<in> set tf" and ab: "x = rnd (a + b)"
        by (rule bexE)
      from sum [OF a1 b1] show ?thesis unfolding ab .
    next
      case 3
      then have "x \<in> set m1" by (rule in_set_dropD)
      then show ?thesis by (rule big)
    qed
  qed
  show "\<forall>x \<in> set (take s m1 @ map (\<lambda>m. rnd (m + hd tf)) (take sl (drop s m1)) @ drop e m1).
           \<bar>x\<bar> \<le> 131072" if l: "length tf = 1"
  proof
    from l have h: "hd tf \<in> set tf" by (cases tf) auto
    fix x
    assume "x \<in> set (take s m1 @ map (\<lambda>m. rnd (m + hd tf)) (take sl (drop s m1)) @ drop e m1)"
    then consider "x \<in> set (take s m1)"
      | "x \<in> set (map (\<lambda>m. rnd (m + hd tf)) (take sl (drop s m1)))"
      | "x \<in> set (drop e m1)"
      unfolding set_append Un_iff by blast
    then show "\<bar>x\<bar> \<le> 131072"
    proof cases
      case 1
      then have "x \<in> set m1" by (rule in_set_takeD)
      then show ?thesis by (rule big)
    next
      case 2
      then obtain a where a1: "a \<in> set (take sl (drop s m1))" and ab: "x = rnd (a + hd tf)"
        unfolding set_map by blast
      from sum [OF a1 h] show ?thesis unfolding ab .
    next
      case 3
      then have "x \<in> set m1" by (rule in_set_dropD)
      then show ?thesis by (rule big)
    qed
  qed
qed

lemma scaled_map_bound:
  assumes "float32_rounding rnd" "0 \<le> v" "v \<le> 1"
  shows "\<forall>x \<in> set (map (\<lambda>w. rnd (astype_float32 w * rnd v)) ws). \<bar>x\<bar> \<le> 32769"
  using scaled_list_bound [OF assms, of ws 0] by simp

lemma overlay_translation_bound:
  assumes r: "float32_rounding rnd"
    and v: "0 \<le> original_volume cfg" "original_volume cfg \<le> 1"
           "0 \<le> translation_volume cfg" "translation_volume cfg \<le> 1"
    and e: "overlay_translation rnd64 rnd cfg original translation delay_ms = Inr out"
  shows "\<forall>w \<in> set out. \<bar>sint w\<bar> \<le> 32767"
proof -
  define d where "d = delay_samples_of rnd64 cfg delay_ms"
  define orig where "orig = map (\<lambda>w. rnd (astype_float32 w * rnd (original_volume cfg))) original"
  define tf where "tf = map (\<lambda>w. rnd (astype_float32 w * rnd (translation_volume cfg))) translation"
  define ntot where "ntot = nat (max (int (length orig)) (d + int (length tf)))"
  define m1 where "m1 = map2 (\<lambda>m x. rnd (m + x)) (take (length orig) (replicate ntot 0)) orig
                  @ drop (length orig) (replicate ntot 0)"
  define start where "start = py_slice_index d ntot"
  define stop where "stop = py_slice_index (d + int (length tf)) ntot"
  note eq = overlay_translation_eq [OF d_def orig_def tf_def ntot_def m1_def start_def stop_def]
  have ob: "\<forall>x \<in> set orig. \<bar>x\<bar> \<le> 32769"
    unfolding orig_def by (rule scaled_map_bound [OF r v(1,2)])
  have tb: "\<forall>x \<in> set tf. \<bar>x\<bar> \<le> 32769"
    unfolding tf_def by (rule scaled_map_bound [OF r v(3,4)])
  note mb = overlay_mixed_bound [OF r ob tb, of start ntot "stop - start" "start + (stop - start)",
      folded m1_def]
  show ?thesis
  proof (cases "length tf = stop - start")
    case True
    from e have "normalize_int16 rnd
                   (take start m1
                    @ map2 (\<lambda>m x. rnd (m + x)) (take (stop - start) (drop start m1)) tf
                    @ drop (start + (stop - start)) m1) = Inr out"
      unfolding eq if_P [OF True] .
    from normalize_int16_Inr [OF r mb(1) this] show ?thesis by simp
  next
    case False
    show ?thesis
    proof (cases "length tf = 1")
      case one: True
      from e have "normalize_int16 rnd
                   (take start m1
                    @ map (\<lambda>m. rnd (m + hd tf)) (take (stop - start) (drop start m1))
                    @ drop (start + (stop - start)) m1) = Inr out"
        unfolding eq if_not_P [OF False] if_P [OF one] .
      from normalize_int16_Inr [OF r mb(2) [OF one] this] show ?thesis by simp
    next
      case F2: False
      from e have "(Inl ValueError :: py_error + int16 list) = Inr out"
        unfolding eq if_not_P [OF False] if_not_P [OF F2] .
      then show ?thesis by simp
    qed
  qed
qed

lemma overlay_translation_returns:
  assumes r: "float32_rounding rnd"
    and v: "0 \<le> original_volume cfg" "original_volume cfg \<le> 1"
           "0 \<le> translation_volume cfg" "translation_volume cfg \<le> 1"
    and dn: "0 \<le> delay_samples_of rnd64 cfg delay_ms"
    and n: "original \<noteq> [] \<or> translation \<noteq> []"
  shows "\<exists>out. overlay_translation rnd64 rnd cfg original translation delay_ms = Inr out
               \<and> length out = max (length original)
                     (nat (delay_samples_of rnd64 cfg delay_ms) + length translation)"
proof -
  define d where "d = delay_samples_of rnd64 cfg delay_ms"
  define orig where "orig = map (\<lambda>w. rnd (astype_float32 w * rnd (original_volume cfg))) original"
  define tf where "tf = map (\<lambda>w. rnd (astype_float32 w * rnd (translation_volume cfg))) translation"
  define ntot where "ntot = nat (max (int (length orig)) (d + int (length tf)))"
  define m1 where "m1 = map2 (\<lambda>m x. rnd (m + x)) (take (length orig) (replicate ntot 0)) orig
                  @ drop (length orig) (replicate ntot 0)"
  define start where "start = py_slice_index d ntot"
  define stop where "stop = py_slice_index (d + int (length tf)) ntot"
  note eq = overlay_translation_eq [OF d_def orig_def tf_def ntot_def m1_def start_def stop_def]
  have ob: "\<forall>x \<in> set orig. \<bar>x\<bar> \<le> 32769"
    unfolding orig_def by (rule scaled_map_bound [OF r v(1,2)])
  have tb: "\<forall>x \<in> set tf. \<bar>x\<bar> \<le> 32769"
    unfolding tf_def by (rule scaled_map_bound [OF r v(3,4)])
  note mb = overlay_mixed_bound [OF r ob tb, of start ntot "stop - start" "start + (stop - start)",
      folded m1_def]
  from dn have d0: "0 \<le> d" by (simp add: d_def)
  have lo: "length orig = length original" and lt: "length tf = length translation"
    by (simp_all add: orig_def tf_def)
  from d0 have nt: "ntot = max (length orig) (nat d + length tf)"
    unfolding ntot_def by linarith
  from d0 nt have st: "start = nat d"
    unfolding start_def py_slice_index_def by simp
  from d0 nt have sp: "stop = nat d + length tf"
    unfolding stop_def py_slice_index_def by (simp add: nat_add_distrib)
  from st sp have sl: "length tf = stop - start" by simp
  have lm: "length m1 = ntot"
    unfolding m1_def using nt by simp
  let ?L = "take start m1
            @ map2 (\<lambda>m x. rnd (m + x)) (take (stop - start) (drop start m1)) tf
            @ drop (start + (stop - start)) m1"
  from nt have le: "nat d + length tf \<le> ntot" by simp
  have l1: "length (take start m1) = nat d"
    unfolding st using le lm by simp
  have l2: "length (map2 (\<lambda>m x. rnd (m + x)) (take (stop - start) (drop start m1)) tf) = length tf"
    unfolding st sp using le lm by simp
  have l3: "length (drop (start + (stop - start)) m1) = ntot - (nat d + length tf)"
    unfolding st sp using lm by simp
  have ll: "length ?L = ntot"
    unfolding length_append l1 l2 l3 using le by simp
  from n nt lo lt have "0 < ntot" by (cases original; cases translation) simp_all
  with ll have ne: "?L \<noteq> []" by auto
  have e1: "overlay_translation rnd64 rnd cfg original translation delay_ms = normalize_int16 rnd ?L"
    unfolding eq if_P [OF sl] by (rule refl)
  from normalize_int16_bound [OF r ne mb(1)] ll
  obtain out where no: "normalize_int16 rnd ?L = Inr out" and lo': "length out = ntot" by auto
  from lo' nt lo lt have "length out = max (length original) (nat d + length translation)"
    by simp
  with no e1 have "overlay_translation rnd64 rnd cfg original translation delay_ms = Inr out
             \<and> length out = max (length original) (nat d + length translation)"
    by simp
  then show ?thesis unfolding d_def by blast
qed

section \<open>Completion by punctuation\<close>

text \<open>
  C1. When a call of \<open>on_transcription\<close> passes the three early returns and the merged
  buffer, stripped of whitespace and of trailing ellipsis runs, is a text \<open>c\<close> that is not
  empty, ends in one of \<open>. ! ? ;\<close> and has at least 20 characters, the call hands exactly
  the one sentence \<open>c\<close> to translation, appends the lower-cased \<open>c\<close> to the recent
  history (dropping the oldest entry beyond ten) and resets the buffer and both time stamps.
  The fragments \<open>This is a complete\<close> and \<open>complete sentence.\<close> merge to
  \<open>This is a complete sentence.\<close>, which is emitted once, as it stands.
\<close>
theorem sentence_completion_emits:
  "(\<not> fragment_skipped st text \<and> c = ellipsis_loop (py_strip (merged_buffer st text))
      \<and> c \<noteq> [] \<and> last c \<in> set ''.!?;'' \<and> length c \<ge> 20
    \<longrightarrow> on_transcription now text st =
          ([c], st\<lparr>recent_transcriptions := push_recent (py_lower c) (recent_transcriptions st),
                    last_transcription_time := Some now,
                    sentence_buffer := [], buffer_start_time := None,
                    last_fragment_time := None\<rparr>))
   \<and> on_transcription 101 ''complete sentence.''
        (snd (on_transcription 100 ''This is a complete'' init_state)) =
       ([''This is a complete sentence.''],
        init_state\<lparr>recent_transcriptions := [''this is a complete sentence.''],
                    last_transcription_time := Some 101\<rparr>)"
proof (intro conjI impI)
  assume a: "\<not> fragment_skipped st text \<and> c = ellipsis_loop (py_strip (merged_buffer st text))
      \<and> c \<noteq> [] \<and> last c \<in> set ''.!?;'' \<and> length c \<ge> 20"
  then have c: "c = ellipsis_loop (py_strip (merged_buffer st text))"
    and l: "\<not> length (ellipsis_loop (py_strip (merged_buffer st text))) < 20"
    and n: "\<not> fragment_skipped st text"
    by auto
  from a have "is_sentence_complete (merged_buffer st text)"
    unfolding is_sentence_complete_iff by blast
  with l show "on_transcription now text st =
          ([c], st\<lparr>recent_transcriptions := push_recent (py_lower c) (recent_transcriptions st),
                    last_transcription_time := Some now,
                    sentence_buffer := [], buffer_start_time := None,
                    last_fragment_time := None\<rparr>)"
    unfolding c on_transcription_merged [OF n] Let_def by simp
next
  show "on_transcription 101 ''complete sentence.''
        (snd (on_transcription 100 ''This is a complete'' init_state)) =
       ([''This is a complete sentence.''],
        init_state\<lparr>recent_transcriptions := [''this is a complete sentence.''],
                    last_transcription_time := Some 101\<rparr>)"
    by code_simp
qed

theorem sentence_completion_emits_witness:
  "\<not> fragment_skipped (snd (on_transcription 100 ''This is a complete'' init_state)) ''complete sentence.''
   \<and> ''This is a complete sentence.'' =
       ellipsis_loop (py_strip (merged_buffer (snd (on_transcription 100 ''This is a complete'' init_state))
          ''complete sentence.''))
   \<and> last ''This is a complete sentence.'' \<in> set ''.!?;''
   \<and> length ''This is a complete sentence.'' \<ge> 20
   \<and> fst (on_transcription 101 ''complete sentence.''
        (snd (on_transcription 100 ''This is a complete'' init_state))) = [''This is a complete sentence.'']"
proof -
  let ?st = "snd (on_transcription 100 ''This is a complete'' init_state)"
  have h: "\<not> fragment_skipped ?st ''complete sentence.''
      \<and> ''This is a complete sentence.'' = ellipsis_loop (py_strip (merged_buffer ?st ''complete sentence.''))
      \<and> ''This is a complete sentence.'' \<noteq> [] \<and> last ''This is a complete sentence.'' \<in> set ''.!?;''
      \<and> length ''This is a complete sentence.'' \<ge> 20"
    by code_simp
  have "fst (on_transcription 101 ''complete sentence.'' ?st) = [''This is a complete sentence.'']"
    using sentence_completion_emits [THEN conjunct1, rule_format, OF h, of 101]
    by (simp only: fst_conv)
  with h show ?thesis by blast
qed

section \<open>No sentence shorter than twenty characters\<close>

text \<open>
  C6. Every sentence that \<open>on_transcription\<close> or \<open>stop_translation_process\<close> hands to
  translation has at least 20 characters. When a fragment is merged, the buffer passes the
  completion test (complete, or timed out and long enough) and its ellipsis-stripped text
  has fewer than 20 characters, nothing is emitted, the recent history is untouched and the
  buffer and both time stamps are reset.
\<close>
theorem emitted_sentences_long:
  "(\<forall>s \<in> set (fst (on_transcription now text st)). length s \<ge> 20)
   \<and> (\<forall>s \<in> set (fst (stop_translation_process st)). length s \<ge> 20)
   \<and> (\<not> fragment_skipped st text
        \<and> (is_sentence_complete (merged_buffer st text)
             \<or> (timeout_reached now st \<and> length (merged_buffer st text) \<ge> min_sentence_length))
        \<and> length (ellipsis_loop (py_strip (merged_buffer st text))) < 20
      \<longrightarrow> on_transcription now text st =
            ([], st\<lparr>sentence_buffer := [], buffer_start_time := None,
                     last_fragment_time := None\<rparr>))"
proof (intro conjI impI)
  show "\<forall>s \<in> set (fst (on_transcription now text st)). length s \<ge> 20"
  proof (cases "fragment_skipped st text")
    case True
    then show ?thesis by (simp add: on_transcription_skipped)
  next
    case False
    then show ?thesis by (simp add: on_transcription_merged Let_def)
  qed
next
  show "\<forall>s \<in> set (fst (stop_translation_process st)). length s \<ge> 20"
    by (simp add: stop_translation_process_def Let_def min_sentence_length_def)
next
  assume a: "\<not> fragment_skipped st text
        \<and> (is_sentence_complete (merged_buffer st text)
             \<or> (timeout_reached now st \<and> length (merged_buffer st text) \<ge> min_sentence_length))
        \<and> length (ellipsis_loop (py_strip (merged_buffer st text))) < 20"
  then have n: "\<not> fragment_skipped st text" by simp
  from a show "on_transcription now text st =
            ([], st\<lparr>sentence_buffer := [], buffer_start_time := None,
                     last_fragment_time := None\<rparr>)"
    unfolding on_transcription_merged [OF n] Let_def by auto
qed

theorem emitted_sentences_long_witness:
  "''This is a complete sentence.'' \<in> set (fst (on_transcription 101 ''complete sentence.''
        (snd (on_transcription 100 ''This is a complete'' init_state))))
   \<and> length ''This is a complete sentence.'' \<ge> 20
   \<and> sentence_buffer pending_state \<in> set (fst (stop_translation_process pending_state))
   \<and> length (sentence_buffer pending_state) \<ge> 20
   \<and> \<not> fragment_skipped init_state ''Stop.''
   \<and> is_sentence_complete (merged_buffer init_state ''Stop.'')
   \<and> length (ellipsis_loop (py_strip (merged_buffer init_state ''Stop.''))) < 20
   \<and> on_transcription 7 ''Stop.'' init_state = ([], init_state)"
proof -
  let ?st = "snd (on_transcription 100 ''This is a complete'' init_state)"
  have m1: "''This is a complete sentence.'' \<in> set (fst (on_transcription 101 ''complete sentence.'' ?st))"
    by code_simp
  have m2: "sentence_buffer pending_state \<in> set (fst (stop_translation_process pending_state))"
    by code_simp
  have h: "\<not> fragment_skipped init_state ''Stop.''
        \<and> (is_sentence_complete (merged_buffer init_state ''Stop.'')
             \<or> (timeout_reached 7 init_state \<and> length (merged_buffer init_state ''Stop.'') \<ge> min_sentence_length))
        \<and> length (ellipsis_loop (py_strip (merged_buffer init_state ''Stop.''))) < 20"
    by code_simp
  have c: "is_sentence_complete (merged_buffer init_state ''Stop.'')"
    by code_simp
  have i: "init_state\<lparr>sentence_buffer := [], buffer_start_time := None, last_fragment_time := None\<rparr> = init_state"
    by (simp add: init_state_def)
  note t = emitted_sentences_long [of 101 "''complete sentence.''" ?st]
  note u = emitted_sentences_long [of 7 "''Stop.''" pending_state]
  note v = emitted_sentences_long [of 7 "''Stop.''" init_state]
  from t m1 have l1: "length ''This is a complete sentence.'' \<ge> 20" by blast
  from u m2 have l2: "length (sentence_buffer pending_state) \<ge> 20" by blast
  from v h have r: "on_transcription 7 ''Stop.'' init_state = ([], init_state)"
    unfolding i by blast
  from m1 l1 m2 l2 h c r show ?thesis by blast
qed

section \<open>The flush at session stop\<close>

text \<open>
  The flush of C4 as the claim states it fails on \<open>pending_state\<close>, a state reached by one
  fragment: the buffer has 55 characters and ends in an ellipsis; the stop emits the buffer
  with its ellipsis and leaves the recent history empty.
\<close>
theorem flush_claim_counterexample:
  "is_translating pending_state
   \<and> sentence_buffer pending_state \<noteq> []
   \<and> length (sentence_buffer pending_state) \<ge> min_sentence_length
   \<and> fst (stop_translation_process pending_state)
       \<noteq> [ellipsis_loop (py_strip (sentence_buffer pending_state))]
   \<and> recent_transcriptions (snd (stop_translation_process pending_state))
       \<noteq> push_recent (py_lower (ellipsis_loop (py_strip (sentence_buffer pending_state))))
            (recent_transcriptions pending_state)"
  by code_simp

text \<open>
  C4, amended. In a running session whose buffer holds a non-whitespace character and at
  least \<open>min_sentence_length\<close> characters, the stop hands exactly one sentence to
  translation, the buffer text as it stands, leaves the recent history as it was, and
  resets the buffer and both time stamps.
\<close>
theorem flush_emits_buffer_as_is:
  assumes "is_translating st"
    and "py_strip (sentence_buffer st) \<noteq> []"
    and "length (sentence_buffer st) \<ge> min_sentence_length"
  shows "stop_translation_process st =
           ([sentence_buffer st],
            st\<lparr>is_translating := False, sentence_buffer := [], buffer_start_time := None,
               last_fragment_time := None\<rparr>)
         \<and> recent_transcriptions (snd (stop_translation_process st)) = recent_transcriptions st"
  using assms by (simp add: stop_translation_process_def Let_def)

theorem flush_emits_buffer_as_is_witness:
  "is_translating pending_state
   \<and> py_strip (sentence_buffer pending_state) \<noteq> []
   \<and> length (sentence_buffer pending_state) \<ge> min_sentence_length
   \<and> fst (stop_translation_process pending_state)
       = [''the committee has not yet announced the final result...'']
   \<and> recent_transcriptions (snd (stop_translation_process pending_state)) = []"
proof -
  have h1: "is_translating pending_state" by code_simp
  have h2: "py_strip (sentence_buffer pending_state) \<noteq> []" by code_simp
  have h3: "length (sentence_buffer pending_state) \<ge> min_sentence_length" by code_simp
  have b: "sentence_buffer pending_state = ''the committee has not yet announced the final result...''"
    by code_simp
  have r: "recent_transcriptions pending_state = []" by code_simp
  from flush_emits_buffer_as_is [OF h1 h2 h3]
  have "fst (stop_translation_process pending_state) = [sentence_buffer pending_state]
        \<and> recent_transcriptions (snd (stop_translation_process pending_state))
            = recent_transcriptions pending_state"
    by simp
  then have "fst (stop_translation_process pending_state)
               = [''the committee has not yet announced the final result...'']
        \<and> recent_transcriptions (snd (stop_translation_process pending_state)) = []"
    unfolding b r .
  with h1 h2 h3 show ?thesis by blast
qed

section \<open>Near-restatements\<close>

text \<open>
  The example of C5 is not a near-restatement: the two word sets share two words of four,
  the similarity is 1/2 and the merge concatenates.
\<close>
theorem near_restatement_example_counterexample:
  "\<not> calculate_similarity ''hello world today'' (clean_word_loops ''hello world todai'') > 0.8
   \<and> merge_fragments ''hello world today'' ''hello world todai''
       = ''hello world today hello world todai''"
  by code_simp

lemma calculate_similarity_Nil [simp]: "calculate_similarity [] s = 0"
  by (simp add: calculate_similarity_def py_lower_def py_strip_def)

text \<open>
  C5, amended. Whenever the similarity of the buffer and the loop-cleaned fragment exceeds
  0.8, the merge returns the buffer when it is strictly longer than the loop-cleaned
  fragment, and the loop-cleaned fragment otherwise; nothing is concatenated.
\<close>
theorem near_restatement_keeps_longer:
  assumes "calculate_similarity buffer (clean_word_loops fragment) > 0.8"
  shows "merge_fragments buffer fragment =
           (if length buffer > length (clean_word_loops fragment)
            then buffer else clean_word_loops fragment)"
proof -
  from assms have "buffer \<noteq> []" by auto
  with assms show ?thesis by (simp add: merge_fragments_def Let_def)
qed

theorem near_restatement_keeps_longer_witness:
  "calculate_similarity ''hello  world today'' (clean_word_loops ''today hello world'') > 0.8
   \<and> merge_fragments ''hello  world today'' ''today hello world'' = ''hello  world today''"
proof -
  have h: "calculate_similarity ''hello  world today'' (clean_word_loops ''today hello world'') > 0.8"
    by code_simp
  have c: "clean_word_loops ''today hello world'' = ''today hello world''" by code_simp
  from near_restatement_keeps_longer [OF h] h show ?thesis
    unfolding c by simp
qed

section \<open>Cleaning word loops twice\<close>

text \<open>
  The cleaner is not idempotent: a run of four becomes a run of two, which a second pass
  reduces to one word.
\<close>
theorem clean_loops_idempotence_counterexample:
  "clean_word_loops (clean_word_loops ''new new new new car'')
     \<noteq> clean_word_loops ''new new new new car''"
  by code_simp

text \<open>
  C3, amended. On a text that has no three neighbouring words with the same key (the word
  lower-cased, its trailing punctuation removed), cleaning twice gives what cleaning once
  gives; on every text, a third cleaning changes nothing.
\<close>
theorem clean_loops_stable:
  "(no_triple (py_split x)
      \<longrightarrow> clean_word_loops (clean_word_loops x) = clean_word_loops x)
   \<and> clean_word_loops (clean_word_loops (clean_word_loops x))
       = clean_word_loops (clean_word_loops x)"
proof (intro conjI impI)
  assume "no_triple (py_split x)"
  then show "clean_word_loops (clean_word_loops x) = clean_word_loops x"
    by (rule clean_twice_no_triple)
next
  show "clean_word_loops (clean_word_loops (clean_word_loops x))
          = clean_word_loops (clean_word_loops x)"
  proof (cases "length (py_split x) < 3")
    case True
    then show ?thesis by (simp add: clean_word_loops_def)
  next
    case False
    have "no_triple (py_split (clean_word_loops x))"
      unfolding py_split_cleaned [OF False] by (rule clean_loop_no_triple)
    then show ?thesis by (rule clean_twice_no_triple)
  qed
qed

theorem clean_loops_stable_witness:
  "no_triple (py_split ''the the cat'')
   \<and> clean_word_loops ''the the cat'' = ''the cat''
   \<and> clean_word_loops (clean_word_loops ''the the cat'') = ''the cat''"
proof -
  have h: "no_triple (py_split ''the the cat'')" by code_simp
  have c: "clean_word_loops ''the the cat'' = ''the cat''" by code_simp
  from clean_loops_stable [of "''the the cat''"] h
  have "clean_word_loops (clean_word_loops ''the the cat'') = clean_word_loops ''the the cat''"
    by blast
  with h c show ?thesis by simp
qed

text \<open>
  C2. For a buffer that is not empty and a fragment whose similarity to the buffer, after
  loop-cleaning, is at most 0.8, the overlap \<open>k\<close> that the two loops compute on the words of
  the buffer and of the loop-cleaned fragment is the largest length from 1 to the smaller
  word count at which the last \<open>k\<close> buffer words equal the first \<open>k\<close> fragment words, and 0
  when there is none; the merge is the loop-cleaned, whitespace-stripped concatenation of
  the buffer, one space and the fragment words after the first \<open>k\<close> (the whole loop-cleaned
  fragment when \<open>k = 0\<close>). The buffer \<open>I went to the\<close> and the fragment \<open>to the store\<close>
  merge to \<open>I went to the store\<close>.
\<close>
theorem merge_drops_largest_overlap:
  "(buffer \<noteq> [] \<and> calculate_similarity buffer (clean_word_loops fragment) \<le> 0.8
      \<and> nf = clean_word_loops fragment \<and> bw = py_split buffer \<and> fw = py_split nf
      \<and> k = overlap_length bw fw
    \<longrightarrow> (k = 0 \<or> (1 \<le> k \<and> k \<le> min (length bw) (length fw) \<and> last_n k bw = take k fw))
        \<and> (\<forall>j. 1 \<le> j \<and> j \<le> min (length bw) (length fw) \<and> last_n j bw = take j fw
               \<longrightarrow> j \<le> k)
        \<and> merge_fragments buffer fragment =
            py_strip (clean_word_loops
              (buffer @ '' '' @ (if k = 0 then nf else py_join (drop k fw)))))
   \<and> merge_fragments ''I went to the'' ''to the store'' = ''I went to the store''"
proof (intro conjI impI)
  assume a: "buffer \<noteq> [] \<and> calculate_similarity buffer (clean_word_loops fragment) \<le> 0.8
      \<and> nf = clean_word_loops fragment \<and> bw = py_split buffer \<and> fw = py_split nf
      \<and> k = overlap_length bw fw"
  then have k: "k = overlap_length bw fw" by simp
  from a have b: "buffer \<noteq> []"
    and s: "\<not> calculate_similarity buffer (clean_word_loops fragment) > 0.8"
    and e: "nf = clean_word_loops fragment" "bw = py_split buffer"
           "fw = py_split (clean_word_loops fragment)"
    by auto
  show "k = 0 \<or> (1 \<le> k \<and> k \<le> min (length bw) (length fw) \<and> last_n k bw = take k fw)"
    unfolding k using overlap_length_largest [of bw fw] by blast
  show "\<forall>j. 1 \<le> j \<and> j \<le> min (length bw) (length fw) \<and> last_n j bw = take j fw \<longrightarrow> j \<le> k"
    unfolding k using overlap_length_largest [of bw fw] by blast
  show "merge_fragments buffer fragment =
            py_strip (clean_word_loops
              (buffer @ '' '' @ (if k = 0 then nf else py_join (drop k fw))))"
    unfolding k e by (rule merge_fragments_concat [OF b s])
next
  show "merge_fragments ''I went to the'' ''to the store'' = ''I went to the store''"
    by code_simp
qed

theorem merge_drops_largest_overlap_witness:
  "''I went to the'' \<noteq> []
   \<and> calculate_similarity ''I went to the'' (clean_word_loops ''to the store'') \<le> 0.8
   \<and> overlap_length (py_split ''I went to the'') (py_split (clean_word_loops ''to the store'')) = 2
   \<and> last_n 2 [''I'', ''went'', ''to'', ''the''] = take 2 [''to'', ''the'', ''store'']
   \<and> merge_fragments ''I went to the'' ''to the store'' =
       py_strip (clean_word_loops (''I went to the'' @ '' '' @ py_join [''store'']))"
proof -
  have h: "''I went to the'' \<noteq> []
      \<and> calculate_similarity ''I went to the'' (clean_word_loops ''to the store'') \<le> 0.8
      \<and> ''to the store'' = clean_word_loops ''to the store''
      \<and> [''I'', ''went'', ''to'', ''the''] = py_split ''I went to the''
      \<and> [''to'', ''the'', ''store''] = py_split ''to the store''
      \<and> 2 = overlap_length [''I'', ''went'', ''to'', ''the''] [''to'', ''the'', ''store'']"
    by code_simp
  have g: "overlap_length (py_split ''I went to the'')
             (py_split (clean_word_loops ''to the store'')) = 2"
    by code_simp
  have d: "(if (2::nat) = 0 then ''to the store'' else py_join (drop 2 [''to'', ''the'', ''store'']))
             = py_join [''store'']"
    by simp
  from merge_drops_largest_overlap [THEN conjunct1, rule_format, OF h]
  have "last_n 2 [''I'', ''went'', ''to'', ''the''] = take 2 [''to'', ''the'', ''store'']
        \<and> merge_fragments ''I went to the'' ''to the store'' =
            py_strip (clean_word_loops (''I went to the'' @ '' '' @ py_join [''store'']))"
    unfolding d by simp
  with h g show ?thesis by blast
qed

section \<open>The buffer invariant\<close>

text \<open>
  C7. The buffer text is empty exactly when \<open>buffer_start_time\<close> is \<open>None\<close>, and that
  exactly when \<open>last_fragment_time\<close> is \<open>None\<close>: this holds in the initial state, and every
  call of \<open>on_transcription\<close> (early return, accumulation, discard or emission) and of
  \<open>stop_translation_process\<close> keeps it.
\<close>
theorem buffer_invariant_kept:
  "buffer_invariant init_state
   \<and> (buffer_invariant st \<longrightarrow> buffer_invariant (snd (on_transcription now text st)))
   \<and> (buffer_invariant st \<longrightarrow> buffer_invariant (snd (stop_translation_process st)))"
proof (intro conjI impI)
  show "buffer_invariant init_state"
    by (simp add: buffer_invariant_def init_state_def)
next
  assume i: "buffer_invariant st"
  show "buffer_invariant (snd (on_transcription now text st))"
  proof (cases "fragment_skipped st text")
    case True
    with i show ?thesis by (simp add: on_transcription_skipped)
  next
    case False
    then have "text_clean text \<noteq> []" by (simp add: fragment_skipped_def)
    then have "has_word (text_clean text)" by (rule text_clean_has_word)
    then have m: "merged_buffer st text \<noteq> []"
      unfolding merged_buffer_def by (rule merge_fragments_not_Nil)
    from i have "sentence_buffer st \<noteq> [] \<longrightarrow> buffer_start_time st \<noteq> None"
      by (simp add: buffer_invariant_def)
    with m show ?thesis
      unfolding on_transcription_merged [OF False] Let_def
      by (auto simp: buffer_invariant_def)
  qed
next
  assume i: "buffer_invariant st"
  then show "buffer_invariant (snd (stop_translation_process st))"
    by (simp add: stop_translation_process_def Let_def buffer_invariant_def)
qed

theorem buffer_invariant_kept_witness:
  "buffer_invariant pending_state
   \<and> sentence_buffer pending_state \<noteq> []
   \<and> buffer_invariant (snd (on_transcription 2 ''is due'' pending_state))
   \<and> buffer_invariant (snd (stop_translation_process pending_state))"
proof -
  have h: "buffer_invariant pending_state" by code_simp
  have n: "sentence_buffer pending_state \<noteq> []" by code_simp
  from buffer_invariant_kept [of pending_state 2 "''is due''"] h n
  show ?thesis by blast
qed

section \<open>Mixing two empty arrays\<close>

text \<open>
  C9. \<open>mix_audio_arrays\<close> does not return on two empty arrays: the padded sum is an array of
  size zero, and \<open>np.abs(mixed).max()\<close> raises \<open>ValueError\<close> on it, whatever the volumes.
\<close>
theorem mix_of_empty_arrays_raises:
  "mix_audio_arrays rnd cfg [] [] = Inl ValueError"
  by (simp add: mix_audio_arrays_def normalize_int16_def)

section \<open>No sample beyond 32767\<close>

text \<open>
  C8. With volumes in \<open>[0, 1]\<close> and a \<open>float32\<close> rounding of bounded error, every sample that
  \<open>mix_audio_arrays\<close> or \<open>overlay_translation\<close> returns has magnitude at most 32767, by the
  scaling with \<open>32767 / peak\<close> when the peak of the sum exceeds 32767. The mix returns, with
  the length of the longer input, unless both inputs are empty; the overlay returns for a
  delay that is not negative, unless both inputs are empty.
\<close>
theorem mixer_samples_within_32767:
  assumes "float32_rounding rnd"
    and "0 \<le> original_volume cfg" and "original_volume cfg \<le> 1"
    and "0 \<le> translation_volume cfg" and "translation_volume cfg \<le> 1"
  shows "(original \<noteq> [] \<or> translation \<noteq> [] \<longrightarrow>
            (\<exists>out. mix_audio_arrays rnd cfg original translation = Inr out
                   \<and> length out = max (length original) (length translation)
                   \<and> (\<forall>w \<in> set out. \<bar>sint w\<bar> \<le> 32767)))
         \<and> (\<forall>out. overlay_translation rnd64 rnd cfg original translation delay_ms = Inr out
                \<longrightarrow> (\<forall>w \<in> set out. \<bar>sint w\<bar> \<le> 32767))
         \<and> (0 \<le> delay_samples_of rnd64 cfg delay_ms \<and> (original \<noteq> [] \<or> translation \<noteq> [])
              \<longrightarrow> (\<exists>out. overlay_translation rnd64 rnd cfg original translation delay_ms = Inr out
                         \<and> length out = max (length original)
                               (nat (delay_samples_of rnd64 cfg delay_ms) + length translation)))"
proof (intro conjI impI allI)
  assume "original \<noteq> [] \<or> translation \<noteq> []"
  with assms show "\<exists>out. mix_audio_arrays rnd cfg original translation = Inr out
                   \<and> length out = max (length original) (length translation)
                   \<and> (\<forall>w \<in> set out. \<bar>sint w\<bar> \<le> 32767)"
    by (rule mix_audio_arrays_bound)
next
  fix out
  assume "overlay_translation rnd64 rnd cfg original translation delay_ms = Inr out"
  with assms show "\<forall>w \<in> set out. \<bar>sint w\<bar> \<le> 32767"
    by (rule overlay_translation_bound)
next
  assume "0 \<le> delay_samples_of rnd64 cfg delay_ms \<and> (original \<noteq> [] \<or> translation \<noteq> [])"
  then have "0 \<le> delay_samples_of rnd64 cfg delay_ms" "original \<noteq> [] \<or> translation \<noteq> []"
    by simp_all
  with assms show "\<exists>out. overlay_translation rnd64 rnd cfg original translation delay_ms = Inr out
                         \<and> length out = max (length original)
                               (nat (delay_samples_of rnd64 cfg delay_ms) + length translation)"
    by (rule overlay_translation_returns)
qed

theorem mixer_samples_within_32767_witness:
  "float32_rounding (\<lambda>x. x)
   \<and> 0 \<le> original_volume default_config \<and> original_volume default_config \<le> 1
   \<and> 0 \<le> translation_volume default_config \<and> translation_volume default_config \<le> 1
   \<and> mix_audio_arrays (\<lambda>x. x) default_config [30000, 100, - 32768] [25000, 7]
       = Inr [32767, 35, - 9473]
   \<and> \<bar>sint (32767 :: int16)\<bar> \<le> 32767 \<and> \<bar>sint (- 9473 :: int16)\<bar> \<le> 32767
   \<and> 0 \<le> delay_samples_of (\<lambda>x. x) default_config 0
   \<and> overlay_translation (\<lambda>x. x) (\<lambda>x. x) default_config [30000, 100, - 32768] [25000, 7] 0
       = Inr [32767, 35, - 9473]"
proof -
  have r: "float32_rounding (\<lambda>x. x)"
    by (simp add: float32_rounding_def)
  have v: "0 \<le> original_volume default_config" "original_volume default_config \<le> 1"
          "0 \<le> translation_volume default_config" "translation_volume default_config \<le> 1"
    by (simp_all add: default_config_def)
  have m: "mix_audio_arrays (\<lambda>x. x) default_config [30000, 100, - 32768] [25000, 7]
             = Inr [32767, 35, - 9473]"
    by code_simp
  have d: "0 \<le> delay_samples_of (\<lambda>x. x) default_config 0"
    by code_simp
  have o: "overlay_translation (\<lambda>x. x) (\<lambda>x. x) default_config [30000, 100, - 32768] [25000, 7] 0
             = Inr [32767, 35, - 9473]"
    by code_simp
  note t = mixer_samples_within_32767 [OF r v,
      of "[30000, 100, - 32768]" "[25000, 7]" "\<lambda>x. x" 0]
  from t o have "\<forall>w \<in> set [32767, 35, - 9473 :: int16]. \<bar>sint w\<bar> \<le> 32767"
    by blast
  then have b: "\<bar>sint (32767 :: int16)\<bar> \<le> 32767 \<and> \<bar>sint (- 9473 :: int16)\<bar> \<le> 32767"
    by (metis list.set_intros(1) list.set_intros(2))
  from r v m b d o show ?thesis by blast
qed

end
